theory Spec2Isabelle
  imports Main
begin

section \<open>JavaScript values and plain objects\<close>

text \<open>
  A JavaScript string is modelled as a \<open>string\<close>: one \<open>char\<close> per UTF-16 code unit, for
  the code units 0 to 255.  The values that the functions below store in objects are
  booleans, strings, numbers and \<open>undefined\<close>.
\<close>

datatype jsval = JBool bool | JStr string | JNum int | JUndef

text \<open>
  A plain object is the list of its own properties in enumeration order.  Reading a
  property that the object does not have gives \<open>None\<close>.
\<close>

type_synonym 'v obj = "(string \<times> 'v) list"

definition obj_get :: "'v obj \<Rightarrow> string \<Rightarrow> 'v option" where
  "obj_get ob k = map_of ob k"

definition obj_keys :: "'v obj \<Rightarrow> string list" where
  "obj_keys ob = map fst ob"

section \<open>The command runner \<open>adbCmd\<close>\<close>

text \<open>
  \<open>execa\<close> is an external library: the promise it returns either resolves with the result
  of the child process or rejects with an error object.  Both are taken as data; a field of
  the error object that is \<open>undefined\<close> is \<open>None\<close>.
\<close>

record execa_result =
  res_stdout :: string
  res_stderr :: string
  res_exitCode :: int

record execa_error =
  err_shortMessage :: "string option"
  err_message :: string
  err_exitCode :: "int option"
  err_stdout :: "string option"
  err_stderr :: "string option"

datatype execa_outcome = Resolved execa_result | Rejected execa_error

record execa_opts =
  opt_timeout :: "nat option"

type_synonym execa_fn = "string \<Rightarrow> string list \<Rightarrow> execa_opts \<Rightarrow> execa_outcome"

definition js_str :: "string option \<Rightarrow> jsval" where
  "js_str v = (case v of None \<Rightarrow> JUndef | Some s \<Rightarrow> JStr s)"

definition js_num :: "int option \<Rightarrow> jsval" where
  "js_num v = (case v of None \<Rightarrow> JUndef | Some n \<Rightarrow> JNum n)"

text \<open>\<open>e.shortMessage || e.message\<close>: an undefined or empty short message is falsy.\<close>

definition short_or_message :: "execa_error \<Rightarrow> string" where
  "short_or_message e =
     (case err_shortMessage e of
        None \<Rightarrow> err_message e
      | Some s \<Rightarrow> if s = [] then err_message e else s)"

definition adbCmd :: "execa_fn \<Rightarrow> string \<Rightarrow> string list \<Rightarrow> execa_opts \<Rightarrow> jsval obj" where
  "adbCmd execa ADB args opts =
     (case execa ADB args opts of
        Resolved r \<Rightarrow> [(''ok'', JBool True), (''stdout'', JStr (res_stdout r))]
      | Rejected e \<Rightarrow>
          [(''ok'', JBool False),
           (''error'', JStr (short_or_message e)),
           (''code'', js_num (err_exitCode e)),
           (''stdout'', js_str (err_stdout e)),
           (''stderr'', js_str (err_stderr e))])"

text \<open>A child process that writes \<open>out\<close> and \<open>err\<close> and exits with code 0.\<close>

definition execa_exit0 :: "string \<Rightarrow> string \<Rightarrow> execa_fn" where
  "execa_exit0 out err =
     (\<lambda>ADB args opts. Resolved \<lparr>res_stdout = out, res_stderr = err, res_exitCode = 0\<rparr>)"

definition no_opts :: execa_opts where
  "no_opts = \<lparr>opt_timeout = None\<rparr>"

section \<open>Regular expressions\<close>

text \<open>
  The character classes of the regular expressions in the source, on the code units 0 to
  255: \<open>\s\<close> (which is also what \<open>trim\<close> removes), \<open>\d\<close>, \<open>\w\<close>, the dot (every character
  but a line terminator) and \<open>[\s\S]\<close>.
\<close>

type_synonym cclass = "char \<Rightarrow> bool"

definition is_space :: cclass where
  "is_space c = (c \<in> {CHR 0x09, CHR 0x0A, CHR 0x0B, CHR 0x0C, CHR 0x0D, CHR 0x20, CHR 0xA0})"

definition is_digit :: cclass where
  "is_digit c = (c \<in> set ''0123456789'')"

definition is_word :: cclass where
  "is_word c = (c \<in> set ''abcdefghijklmnopqrstuvwxyzABCDEFGHIJKLMNOPQRSTUVWXYZ0123456789_'')"

definition is_dot :: cclass where
  "is_dot c = (c \<noteq> CHR 0x0A \<and> c \<noteq> CHR 0x0D)"

definition any_char :: cclass where
  "any_char c = True"

text \<open>\<open>[\w.\-+]\<close> and \<open>[\w.]\<close>.\<close>

definition version_char :: cclass where
  "version_char c = (is_word c \<or> c \<in> set ''.-+'')"


text \<open>
  The syntax of the patterns that occur in the source: literal text, a greedy \<open>*\<close> or \<open>+\<close>
  and a lazy \<open>*?\<close> over a character class, a greedy optional part \<open>(?:...)?\<close>, one capturing
  group, and the anchors \<open>^\<close> and \<open>$\<close> (without the \<open>m\<close> flag).  A regular expression is the
  list of its alternatives.  \<open>GClose\<close> marks the end of the capturing group while matching.
\<close>

datatype node =
    Lit string
  | Star cclass
  | Plus cclass
  | LazyStar cclass
  | Opt "node list"
  | Group "node list"
  | GClose
  | Bol
  | Eol

type_synonym regex = "node list list"

fun nweight :: "node \<Rightarrow> nat" where
  "nweight (Opt ns) = Suc (sum_list (map nweight ns))"
| "nweight (Group ns) = Suc (Suc (sum_list (map nweight ns)))"
| "nweight _ = 1"

text \<open>\<open>s.startsWith(p)\<close> and \<open>s.includes(sub)\<close>.\<close>

definition startsWith :: "string \<Rightarrow> string \<Rightarrow> bool" where
  "startsWith s p = (take (length p) s = p)"

fun str_includes :: "string \<Rightarrow> string \<Rightarrow> bool" where
  "str_includes [] sub = (sub = [])"
| "str_includes (c # cs) sub = (startsWith (c # cs) sub \<or> str_includes cs sub)"

text \<open>
  The backtracking matcher.  \<open>bt n ns s g cap\<close> matches the nodes \<open>ns\<close> against the rest \<open>s\<close>
  of an input of length \<open>n\<close>; \<open>g\<close> is the rest of the input where the capturing group was
  entered and \<open>cap\<close> the text captured so far.  The result is the first match in the
  priority order of a backtracking engine: the rest of the input after the match, and
  the capture.
\<close>

function bt :: "nat \<Rightarrow> node list \<Rightarrow> string \<Rightarrow> string \<Rightarrow> string option
    \<Rightarrow> (string \<times> string option) option" where
  "bt n [] s g cap = Some (s, cap)"
| "bt n (Lit l # k) s g cap =
     (if startsWith s l then bt n k (drop (length l) s) g cap else None)"
| "bt n (Star c # k) s g cap =
     (case s of
        [] \<Rightarrow> bt n k s g cap
      | x # xs \<Rightarrow>
          if c x then
            (case bt n (Star c # k) xs g cap of
               Some r \<Rightarrow> Some r
             | None \<Rightarrow> bt n k s g cap)
          else bt n k s g cap)"
| "bt n (Plus c # k) s g cap =
     (case s of
        [] \<Rightarrow> None
      | x # xs \<Rightarrow> if c x then bt n (Star c # k) xs g cap else None)"
| "bt n (LazyStar c # k) s g cap =
     (case bt n k s g cap of
        Some r \<Rightarrow> Some r
      | None \<Rightarrow>
          (case s of
             [] \<Rightarrow> None
           | x # xs \<Rightarrow> if c x then bt n (LazyStar c # k) xs g cap else None))"
| "bt n (Opt ns # k) s g cap =
     (case bt n (ns @ k) s g cap of
        Some r \<Rightarrow> Some r
      | None \<Rightarrow> bt n k s g cap)"
| "bt n (Group ns # k) s g cap = bt n (ns @ GClose # k) s s cap"
| "bt n (GClose # k) s g cap = bt n k s g (Some (take (length g - length s) g))"
| "bt n (Bol # k) s g cap = (if length s = n then bt n k s g cap else None)"
| "bt n (Eol # k) s g cap = (if s = [] then bt n k s g cap else None)"
  by pat_completeness auto
termination
  by (relation "measures [\<lambda>(n, ns, s, g, cap). sum_list (map nweight ns),
                          \<lambda>(n, ns, s, g, cap). length s]") auto

text \<open>A match that starts exactly at \<open>s\<close>: the alternatives are tried from left to right.\<close>

fun match_at :: "nat \<Rightarrow> regex \<Rightarrow> string \<Rightarrow> (string \<times> string option) option" where
  "match_at n [] s = None"
| "match_at n (a # as) s =
     (case bt n a s s None of
        Some r \<Rightarrow> Some r
      | None \<Rightarrow> match_at n as s)"

text \<open>
  \<open>text.match(re)\<close> and \<open>re.test(text)\<close> for a pattern without the \<open>g\<close> flag: the leftmost
  start position with a match wins, the end of the input included.  \<open>rx_match\<close> gives
  \<open>None\<close> for \<open>null\<close>, and otherwise element 1 of the result array (\<open>None\<close> when it is
  \<open>undefined\<close>).
\<close>

fun rx_search :: "nat \<Rightarrow> regex \<Rightarrow> string \<Rightarrow> (string \<times> string option) option" where
  "rx_search n r [] = match_at n r []"
| "rx_search n r (c # cs) =
     (case match_at n r (c # cs) of
        Some m \<Rightarrow> Some m
      | None \<Rightarrow> rx_search n r cs)"

definition rx_match :: "regex \<Rightarrow> string \<Rightarrow> string option option" where
  "rx_match r text = map_option snd (rx_search (length text) r text)"

definition rx_test :: "regex \<Rightarrow> string \<Rightarrow> bool" where
  "rx_test r text = (rx_match r text \<noteq> None)"

text \<open>
  \<open>text.split(re)\<close> for a pattern without capturing group.  \<open>cur\<close> is the piece collected
  since the last separator.  A match that consumes nothing does not split at the start of
  a piece, and otherwise splits without consuming.
\<close>

fun split_loop :: "nat \<Rightarrow> regex \<Rightarrow> string \<Rightarrow> string \<Rightarrow> string list" where
  "split_loop n r cur [] = [cur]"
| "split_loop n r cur (c # cs) =
     (case match_at n r (c # cs) of
        None \<Rightarrow> split_loop n r (cur @ [c]) cs
      | Some (rest, cap) \<Rightarrow>
          if length rest < length (c # cs) then cur # split_loop n r [] rest
          else if cur = [] then split_loop n r [c] cs
          else cur # split_loop n r [c] cs)"

definition rx_split :: "regex \<Rightarrow> string \<Rightarrow> string list" where
  "rx_split r text =
     (if text = [] then (if match_at 0 r [] = None then [[]] else [])
      else split_loop (length text) r [] text)"

text \<open>\<open>text.replace(re, rep)\<close> for a pattern with the \<open>g\<close> flag and a replacement without \<open>$\<close>.\<close>

fun replace_loop :: "nat \<Rightarrow> regex \<Rightarrow> string \<Rightarrow> string \<Rightarrow> string" where
  "replace_loop n r rep [] = (if match_at n r [] = None then [] else rep)"
| "replace_loop n r rep (c # cs) =
     (case match_at n r (c # cs) of
        None \<Rightarrow> c # replace_loop n r rep cs
      | Some (rest, cap) \<Rightarrow>
          if length rest < length (c # cs) then rep @ replace_loop n r rep rest
          else rep @ c # replace_loop n r rep cs)"

definition rx_replace :: "regex \<Rightarrow> string \<Rightarrow> string \<Rightarrow> string" where
  "rx_replace r rep text = replace_loop (length text) r rep text"

section \<open>String and array helpers\<close>

text \<open>\<open>s.trim()\<close>, \<open>s.split(':')\<close> with a one-character separator, and \<open>xs.join(sep)\<close>.\<close>

definition trim :: "string \<Rightarrow> string" where
  "trim s = rev (dropWhile is_space (rev (dropWhile is_space s)))"

fun str_split :: "char \<Rightarrow> string \<Rightarrow> string list" where
  "str_split d [] = [[]]"
| "str_split d (c # cs) =
     (if c = d then [] # str_split d cs
      else (case str_split d cs of
              [] \<Rightarrow> [[c]]
            | p # ps \<Rightarrow> (c # p) # ps))"

fun js_join :: "string \<Rightarrow> string list \<Rightarrow> string" where
  "js_join sep [] = []"
| "js_join sep [x] = x"
| "js_join sep (x # y # ys) = x @ sep @ js_join sep (y # ys)"

section \<open>Setting a property of a plain object\<close>

text \<open>
  \<open>ob[k] = v\<close> on an object made by an object literal.  The key \<open>__proto__\<close> reaches the
  setter inherited from \<open>Object.prototype\<close>, which ignores a string.  An existing property
  keeps its place; a new one is enumerated after the others, unless its key is an array
  index (a canonical decimal number below \<open>2^32 - 1\<close>): those come first, in ascending
  order.
\<close>

definition dec_value :: "string \<Rightarrow> int" where
  "dec_value k = foldl (\<lambda>n c. 10 * n + (of_char c - 48)) 0 k"

definition is_array_index :: "string \<Rightarrow> bool" where
  "is_array_index k =
     (k \<noteq> [] \<and> list_all is_digit k \<and> (k = ''0'' \<or> hd k \<noteq> CHR ''0'')
      \<and> dec_value k < 4294967295)"

fun insert_index :: "string \<Rightarrow> 'v \<Rightarrow> 'v obj \<Rightarrow> 'v obj" where
  "insert_index k v [] = [(k, v)]"
| "insert_index k v ((k', v') # ps) =
     (if is_array_index k' \<and> dec_value k' < dec_value k
      then (k', v') # insert_index k v ps
      else (k, v) # (k', v') # ps)"

definition set_prop :: "'v obj \<Rightarrow> string \<Rightarrow> 'v \<Rightarrow> 'v obj" where
  "set_prop ob k v =
     (if k = ''__proto__'' then ob
      else if k \<in> set (obj_keys ob)
        then map (\<lambda>(k', v'). if k' = k then (k', v) else (k', v')) ob
      else if is_array_index k then insert_index k v ob
      else ob @ [(k, v)])"

section \<open>The parsers\<close>

text \<open>The patterns \<open>/\r?\n/\<close> and \<open>/\s+/\<close>.\<close>

definition re_newline :: regex where
  "re_newline = [[Opt [Lit [CHR 0x0D]], Lit ''\<newline>'']]"

definition re_spaces :: regex where
  "re_spaces = [[Plus is_space]]"

subsection \<open>\<open>parseDevicesList\<close>\<close>

text \<open>
  The body of the inner loop: \<open>const [k, v] = m.split(':'); if (v) info[k] = v\<close>.
  A missing or empty \<open>v\<close> is falsy.
\<close>

definition add_token :: "string obj \<Rightarrow> string \<Rightarrow> string obj" where
  "add_token info m =
     (case str_split (CHR '':'') m of
        k # v # _ \<Rightarrow> if v \<noteq> [] then set_prop info k v else info
      | _ \<Rightarrow> info)"

text \<open>
  The body of the outer loop, for one trimmed, non-empty line \<open>l\<close>; \<open>continue\<close> leaves the
  list as it is.
\<close>

definition devices_step :: "string obj list \<Rightarrow> string \<Rightarrow> string obj list" where
  "devices_step list l =
     (if startsWith l ''List of devices attached'' then list
      else
        (case rx_split re_spaces l of
           serial # state # rest \<Rightarrow>
             if serial = [] \<or> state = [] then list
             else list @ [foldl add_token [(''serial'', serial), (''state'', state)]
                            (rx_split re_spaces (js_join '' '' rest))]
         | _ \<Rightarrow> list))"

definition parseDevicesList :: "string \<Rightarrow> string obj list" where
  "parseDevicesList text =
     foldl devices_step [] (filter (\<lambda>l. l \<noteq> []) (map trim (rx_split re_newline text)))"

subsection \<open>\<open>parsePackageList\<close>\<close>




subsection \<open>\<open>parseDumpsysPackage\<close>\<close>

record package_details =
  versionName :: string
  versionCode :: string
  appId :: string
  userId :: string
  enabled :: "bool option"
  requested :: "string list"
  granted :: "string list"

definition re_versionName :: regex where
  "re_versionName = [[Lit ''versionName='', Group [Plus version_char]]]"

definition re_versionCode :: regex where
  "re_versionCode = [[Lit ''versionCode='', Group [Plus is_digit]]]"

definition re_appId :: regex where
  "re_appId = [[Lit ''appId='', Group [Plus is_digit]]]"

definition re_userId :: regex where
  "re_userId = [[Lit ''userId='', Group [Plus is_digit]]]"

text \<open>\<open>/enabled=true|pkgFlags=\[.*?HAS_CODE.*?\]/\<close> and \<open>/enabled=false/\<close>\<close>

definition re_enabled_true :: regex where
  "re_enabled_true =
     [[Lit ''enabled=true''],
      [Lit ''pkgFlags=['', LazyStar is_dot, Lit ''HAS_CODE'', LazyStar is_dot, Lit '']'']]"

definition re_enabled_false :: regex where
  "re_enabled_false = [[Lit ''enabled=false'']]"

text \<open>\<open>/requested permissions:\s*([\s\S]*?)\n\n/\<close> and \<open>/grantedPermissions:\s*([\s\S]*?)\n\n/\<close>\<close>

definition re_section :: "string \<Rightarrow> regex" where
  "re_section header =
     [[Lit header, Star is_space, Group [LazyStar any_char], Lit ''\<newline>\<newline>'']]"

definition re_requested :: regex where
  "re_requested = re_section ''requested permissions:''"

definition re_granted :: regex where
  "re_granted = re_section ''grantedPermissions:''"

text \<open>\<open>get = (re, d='') => (text.match(re)||[])[1] || d\<close>\<close>

definition get :: "string \<Rightarrow> regex \<Rightarrow> string \<Rightarrow> string" where
  "get text re d =
     (case rx_match re text of
        None \<Rightarrow> d
      | Some None \<Rightarrow> d
      | Some (Some v) \<Rightarrow> if v = [] then d else v)"

text \<open>
  \<open>m[1].split(/\r?\n/).map(s => s.trim())\<close> for a match \<open>m\<close>: where element 1 of the match
  is \<open>undefined\<close>, reading its \<open>split\<close> throws a \<open>TypeError\<close>.  These are the only two places
  of the parsers that can throw.
\<close>

datatype js_error = TypeError

definition capture_lines :: "string option \<Rightarrow> js_error + string list" where
  "capture_lines m1 =
     (case m1 of
        None \<Rightarrow> Inl TypeError
      | Some c \<Rightarrow> Inr (map trim (rx_split re_newline c)))"

definition requested_lines :: "string \<Rightarrow> js_error + string list" where
  "requested_lines text =
     (case rx_match re_requested text of
        None \<Rightarrow> Inr []
      | Some m1 \<Rightarrow>
          (case capture_lines m1 of
             Inl e \<Rightarrow> Inl e
           | Inr ls \<Rightarrow> Inr (filter (\<lambda>s. s \<noteq> [] \<and> \<not> str_includes s ''granted=true'') ls)))"

definition granted_lines :: "string \<Rightarrow> js_error + string list" where
  "granted_lines text =
     (case rx_match re_granted text of
        None \<Rightarrow> Inr []
      | Some m1 \<Rightarrow>
          (case capture_lines m1 of
             Inl e \<Rightarrow> Inl e
           | Inr ls \<Rightarrow> Inr (filter (\<lambda>s. s \<noteq> []) ls)))"

definition parseDumpsysPackage :: "string \<Rightarrow> js_error + package_details" where
  "parseDumpsysPackage text =
     (case requested_lines text of
        Inl e \<Rightarrow> Inl e
      | Inr req \<Rightarrow>
          (case granted_lines text of
             Inl e \<Rightarrow> Inl e
           | Inr gr \<Rightarrow>
               Inr \<lparr>versionName = get text re_versionName [],
                    versionCode = get text re_versionCode [],
                    appId = get text re_appId [],
                    userId = get text re_userId [],
                    enabled =
                      (if rx_test re_enabled_true text then Some True
                       else if rx_test re_enabled_false text then Some False
                       else None),
                    requested = req,
                    granted = gr\<rparr>))"

section \<open>The log relay\<close>

text \<open>
  The state is the list of chunks written to the response so far; \<open>res.write\<close> appends one.
  \<open>send\<close> is the arrow function of the same name, and \<open>on_stdout\<close> and \<open>on_stderr\<close> are the two
  \<open>data\<close> handlers.
\<close>

definition send :: "string list \<Rightarrow> string \<Rightarrow> string list" where
  "send written line =
     written @ [''data: '' @ rx_replace re_newline ''\<newline>'' line @ ''\<newline>\<newline>'']"

definition on_stdout :: "string list \<Rightarrow> string \<Rightarrow> string list" where
  "on_stdout written chunk =
     foldl (\<lambda>w ln. if ln \<noteq> [] then send w ln else w) written (rx_split re_newline chunk)"

definition on_stderr :: "string list \<Rightarrow> string \<Rightarrow> string list" where
  "on_stderr written chunk =
     foldl (\<lambda>w ln. if ln \<noteq> [] then send w (''[stderr] '' @ ln) else w) written
       (rx_split re_newline chunk)"

datatype data_event = StdoutData string | StderrData string

fun on_data :: "string list \<Rightarrow> data_event \<Rightarrow> string list" where
  "on_data written (StdoutData chunk) = on_stdout written chunk"
| "on_data written (StderrData chunk) = on_stderr written chunk"

definition logcat_stream :: "data_event list \<Rightarrow> string list" where
  "logcat_stream events = foldl on_data [] events"

section \<open>Notions used to state the properties\<close>

text \<open>
  The text before and the text after the first occurrence of \<open>sub\<close> in a string (all of it
  and none of it when \<open>sub\<close> does not occur).
\<close>

fun before :: "string \<Rightarrow> string \<Rightarrow> string" where
  "before sub [] = []"
| "before sub (c # cs) = (if startsWith (c # cs) sub then [] else c # before sub cs)"

fun after :: "string \<Rightarrow> string \<Rightarrow> string" where
  "after sub [] = []"
| "after sub (c # cs) =
     (if startsWith (c # cs) sub then drop (length sub) (c # cs) else after sub cs)"

text \<open>
  What the section pattern captures for the header \<open>hdr\<close>: the text after the header, with
  leading whitespace skipped, up to two consecutive newlines; the empty text when two
  consecutive newlines occur only inside that whitespace.
\<close>

definition section_text :: "string \<Rightarrow> string \<Rightarrow> string option" where
  "section_text hdr text =
     (let rest = after hdr text; body = dropWhile is_space rest in
      if str_includes text hdr \<and> str_includes body ''\<newline>\<newline>''
        then Some (before ''\<newline>\<newline>'' body)
      else if str_includes text hdr \<and> str_includes rest ''\<newline>\<newline>'' then Some []
      else None)"

text \<open>
  The requested permissions as C4 words them: the lines after the header up to the next
  blank line.
\<close>

definition claimed_requested :: "string \<Rightarrow> string list" where
  "claimed_requested text =
     (if str_includes text ''requested permissions:''
      then filter (\<lambda>s. s \<noteq> [] \<and> \<not> str_includes s ''granted=true'')
             (map trim (rx_split re_newline
                (before ''\<newline>\<newline>'' (after ''requested permissions:'' text))))
      else [])"

subsection \<open>Device lines\<close>

text \<open>
  The words of a line: its maximal runs of characters that are not whitespace.
  \<open>cur\<close> is the word collected so far.
\<close>

fun words_acc :: "string \<Rightarrow> string \<Rightarrow> string list" where
  "words_acc cur [] = (if cur = [] then [] else [cur])"
| "words_acc cur (c # cs) =
     (if is_space c then (if cur = [] then words_acc [] cs else cur # words_acc [] cs)
      else words_acc (cur @ [c]) cs)"

definition words :: "string \<Rightarrow> string list" where
  "words s = words_acc [] s"

definition is_token :: "string \<Rightarrow> bool" where
  "is_token t = (t \<noteq> [] \<and> (\<forall>c\<in>set t. \<not> is_space c))"

text \<open>
  A token \<open>key:value\<close>: the key is the text before the first colon, the value the text
  between the first colon and the second (or the end).  A token without colon has an
  empty value.
\<close>

definition token_key :: "string \<Rightarrow> string" where
  "token_key t = takeWhile (\<lambda>c. c \<noteq> CHR '':'') t"

definition token_value :: "string \<Rightarrow> string" where
  "token_value t =
     takeWhile (\<lambda>c. c \<noteq> CHR '':'') (drop 1 (dropWhile (\<lambda>c. c \<noteq> CHR '':'') t))"

text \<open>
  The device list as the amended C2 words it: a token with a non-empty value sets the
  property named by its key on the record, which starts with the properties \<open>serial\<close> and
  \<open>state\<close>; a line with fewer than two words gives no record; the lines are the trimmed
  lines of the input that do not start with the header.
\<close>

definition add_field :: "string obj \<Rightarrow> string \<Rightarrow> string obj" where
  "add_field ob t =
     (if token_value t \<noteq> [] then set_prop ob (token_key t) (token_value t) else ob)"

definition device_record :: "string list \<Rightarrow> string obj list" where
  "device_record ts =
     (case ts of
        serial # state # rest \<Rightarrow>
          [foldl add_field [(''serial'', serial), (''state'', state)] rest]
      | _ \<Rightarrow> [])"

definition device_lines :: "string \<Rightarrow> string list" where
  "device_lines text =
     filter (\<lambda>l. \<not> startsWith l ''List of devices attached'')
       (map trim (rx_split re_newline text))"

text \<open>The input of the example of C2; the serial is followed by a tab.\<close>

definition devices_example :: string where
  "devices_example =
     ''List of devices attached\<newline>ABC123'' @ [CHR 0x09] @ ''device product:pixel model:Pixel_5\<newline>''"

text \<open>
  The device list as C2 words it: a record with a separate map of attributes, to which
  every token with a colon is added.
\<close>

record DeviceRecord =
  dr_serial :: string
  dr_state :: string
  dr_attributes :: "(string \<times> string) list"

definition claimed_device :: "string list \<Rightarrow> DeviceRecord list" where
  "claimed_device ts =
     (case ts of
        serial # state # rest \<Rightarrow>
          [\<lparr>dr_serial = serial, dr_state = state,
            dr_attributes =
              map (\<lambda>t. (takeWhile (\<lambda>c. c \<noteq> CHR '':'') t,
                        drop 1 (dropWhile (\<lambda>c. c \<noteq> CHR '':'') t)))
                (filter (\<lambda>t. CHR '':'' \<in> set t) rest)\<rparr>]
      | _ \<Rightarrow> [])"

definition claimed_parseDeviceList :: "string \<Rightarrow> DeviceRecord list" where
  "claimed_parseDeviceList text = concat (map (\<lambda>l. claimed_device (words l)) (device_lines text))"

text \<open>
  A well-formed device line: serial and state are words, the attributes \<open>key:value\<close> have
  neither whitespace nor a colon in key and value, and the separators are non-empty
  whitespace without newline.
\<close>

definition is_sep :: "string \<Rightarrow> bool" where
  "is_sep sep = (sep \<noteq> [] \<and> (\<forall>c\<in>set sep. is_space c \<and> c \<noteq> CHR ''\<newline>''))"

definition is_field :: "string \<Rightarrow> bool" where
  "is_field f = (\<forall>c\<in>set f. \<not> is_space c \<and> c \<noteq> CHR '':'')"

definition device_line :: "string \<Rightarrow> string \<Rightarrow> string \<Rightarrow> (string \<times> string \<times> string) list \<Rightarrow> string" where
  "device_line serial sep0 state attrs =
     serial @ sep0 @ state @ concat (map (\<lambda>(sep, k, v). sep @ k @ '':'' @ v) attrs)"

subsection \<open>Log events\<close>

text \<open>The server-sent event for one line of text.\<close>

definition sse_event :: "string \<Rightarrow> string" where
  "sse_event l = ''data: '' @ l @ ''\<newline>\<newline>''"

text \<open>
  The lines that the subprocess has written to its standard output, as C7 words it: the
  chunks of standard output, put together and split at the line breaks (the text after the
  last line break is a line if it is not empty).
\<close>

fun stdout_text :: "data_event list \<Rightarrow> string" where
  "stdout_text [] = []"
| "stdout_text (StdoutData chunk # es) = chunk @ stdout_text es"
| "stdout_text (StderrData chunk # es) = stdout_text es"

definition stream_lines :: "string \<Rightarrow> string list" where
  "stream_lines s =
     (let ps = rx_split re_newline s in if ps \<noteq> [] \<and> last ps = [] then butlast ps else ps)"

section \<open>Properties of the command runner\<close>

text \<open>
  C5, as stated: after a normal exit with code 0 the result carries \<open>exitCode = 0\<close>.  The
  object returned on success has no such property: for a child that wrote \<open>ok\<close> to
  standard output and exited with code 0, reading \<open>exitCode\<close> (and \<open>code\<close>, the name the
  failure branch uses) finds nothing.
\<close>

theorem adbCmd_success_counterexample:
  "obj_get (adbCmd (execa_exit0 ''ok'' ''warn'') ''adb'' [''version''] no_opts) ''exitCode'' = None
   \<and> obj_get (adbCmd (execa_exit0 ''ok'' ''warn'') ''adb'' [''version''] no_opts) ''code'' = None"
  by (simp add: adbCmd_def execa_exit0_def obj_get_def)

text \<open>
  C5, amended: whenever the child process exits normally, the returned object has
  \<open>ok = true\<close> and \<open>stdout\<close> the captured standard output, and it has no property
  \<open>exitCode\<close>, \<open>code\<close> or \<open>error\<close>.
\<close>

theorem adbCmd_success_shape:
  "execa ADB args opts = Resolved r \<longrightarrow>
     obj_get (adbCmd execa ADB args opts) ''ok'' = Some (JBool True)
     \<and> obj_get (adbCmd execa ADB args opts) ''stdout'' = Some (JStr (res_stdout r))
     \<and> obj_get (adbCmd execa ADB args opts) ''exitCode'' = None
     \<and> obj_get (adbCmd execa ADB args opts) ''code'' = None
     \<and> obj_get (adbCmd execa ADB args opts) ''error'' = None"
  by (simp add: adbCmd_def obj_get_def)

text \<open>C5, amended, at a child process that exits with code 0.\<close>

theorem adbCmd_success_shape_witness:
  "execa_exit0 ''ok'' ''warn'' ''adb'' [''version''] no_opts
     = Resolved \<lparr>res_stdout = ''ok'', res_stderr = ''warn'', res_exitCode = 0\<rparr>
   \<and> obj_get (adbCmd (execa_exit0 ''ok'' ''warn'') ''adb'' [''version''] no_opts) ''ok'' = Some (JBool True)
   \<and> obj_get (adbCmd (execa_exit0 ''ok'' ''warn'') ''adb'' [''version''] no_opts) ''stdout'' = Some (JStr ''ok'')
   \<and> obj_get (adbCmd (execa_exit0 ''ok'' ''warn'') ''adb'' [''version''] no_opts) ''exitCode'' = None"
proof -
  have h: "execa_exit0 ''ok'' ''warn'' ''adb'' [''version''] no_opts
     = Resolved \<lparr>res_stdout = ''ok'', res_stderr = ''warn'', res_exitCode = 0\<rparr>"
    by (simp add: execa_exit0_def)
  from adbCmd_success_shape
    [of "execa_exit0 ''ok'' ''warn''" "''adb''" "[''version'']" no_opts
        "\<lparr>res_stdout = ''ok'', res_stderr = ''warn'', res_exitCode = 0\<rparr>"]
  show ?thesis using h by simp
qed

section \<open>Strings\<close>

lemma startsWith_append [simp]: "startsWith (p @ s) p"
  by (simp add: startsWith_def)

lemma startsWith_iff: "startsWith s p \<longleftrightarrow> (\<exists>r. s = p @ r)"
  unfolding startsWith_def
  by (metis append_eq_conv_conj append_take_drop_id)

lemma startsWith_Nil [simp]: "startsWith s []"
  by (simp add: startsWith_def)

lemma startsWith_Nil_left [simp]: "startsWith [] p \<longleftrightarrow> p = []"
  by (auto simp add: startsWith_def)

lemma str_includes_iff: "str_includes s sub \<longleftrightarrow> (\<exists>a b. s = a @ sub @ b)"
proof (induction s)
  case Nil
  then show ?case by auto
next
  case (Cons c cs)
  show ?case
  proof
    assume "str_includes (c # cs) sub"
    then consider "startsWith (c # cs) sub" | "str_includes cs sub" by auto
    then show "\<exists>a b. c # cs = a @ sub @ b"
    proof cases
      case 1
      then obtain r where "c # cs = sub @ r" by (auto simp: startsWith_iff)
      then have "c # cs = [] @ sub @ r" by simp
      then show ?thesis by blast
    next
      case 2
      then obtain a b where "cs = a @ sub @ b" using Cons.IH by blast
      then have "c # cs = (c # a) @ sub @ b" by simp
      then show ?thesis by blast
    qed
  next
    assume "\<exists>a b. c # cs = a @ sub @ b"
    then obtain a b where ab: "c # cs = a @ sub @ b" by blast
    show "str_includes (c # cs) sub"
    proof (cases a)
      case Nil
      then have "startsWith (c # cs) sub" using ab by (auto simp: startsWith_iff)
      then show ?thesis by simp
    next
      case (Cons x a')
      then have "cs = a' @ sub @ b" using ab by simp
      then show ?thesis using Cons.IH by auto
    qed
  qed
qed

lemma str_includes_drop: "\<not> str_includes s sub \<Longrightarrow> \<not> str_includes (drop j s) sub"
proof
  assume n: "\<not> str_includes s sub" and "str_includes (drop j s) sub"
  then obtain a b where "drop j s = a @ sub @ b" by (auto simp: str_includes_iff)
  then have "s = (take j s @ a) @ sub @ b" by (metis append.assoc append_take_drop_id)
  then show False using n str_includes_iff by blast
qed

lemma startsWith_drop: "startsWith s p \<Longrightarrow> p @ drop (length p) s = s"
  by (metis startsWith_def append_take_drop_id)

lemma before_after: "str_includes s sub \<Longrightarrow> before sub s @ sub @ after sub s = s"
  by (induction s) (auto simp: startsWith_drop)

lemma after_none [simp]: "\<not> str_includes s sub \<Longrightarrow> after sub s = []"
  by (induction s) auto

lemma take_before: "take (length (before sub s)) s = before sub s"
  by (induction s) auto

section \<open>The backtracking matcher\<close>

text \<open>
  The defining equations of the two stars unfold on any input; the simplifier gets them
  for the empty and the non-empty input instead.
\<close>

lemma bt_Star_Nil [simp]: "bt n (Star c # k) [] g cap = bt n k [] g cap"
  by simp

lemma bt_Star_Cons [simp]:
  "bt n (Star c # k) (x # xs) g cap =
     (if c x then
        (case bt n (Star c # k) xs g cap of
           Some r \<Rightarrow> Some r
         | None \<Rightarrow> bt n k (x # xs) g cap)
      else bt n k (x # xs) g cap)"
  by simp

lemma bt_LazyStar_Nil [simp]: "bt n (LazyStar c # k) [] g cap = bt n k [] g cap"
  by (simp split: option.splits)

lemma bt_LazyStar_Cons [simp]:
  "bt n (LazyStar c # k) (x # xs) g cap =
     (case bt n k (x # xs) g cap of
        Some r \<Rightarrow> Some r
      | None \<Rightarrow> if c x then bt n (LazyStar c # k) xs g cap else None)"
  by (simp split: option.splits)

declare bt.simps(3,5) [simp del]

subsection \<open>A match consumes a prefix of the input\<close>

text \<open>
  So the rest after a match is never longer than the input, and it is as long only when
  the match is empty: the last branch of \<open>split_loop\<close> and of \<open>replace_loop\<close> is the
  empty match.
\<close>

lemma bt_suffix:
  "bt n ns s g cap = Some (rest, m) \<Longrightarrow> \<exists>pre. s = pre @ rest"
proof (induction n ns s g cap arbitrary: rest m rule: bt.induct)
  case (1 n s g cap)
  then show ?case by simp
next
  case (2 n l k s g cap)
  then have sw: "startsWith s l" and r: "bt n k (drop (length l) s) g cap = Some (rest, m)"
    by (auto split: if_splits)
  from "2.IH" [OF sw r] obtain pre where "drop (length l) s = pre @ rest" by (elim exE)
  then have "s = (take (length l) s @ pre) @ rest"
    by (metis append.assoc append_take_drop_id)
  then show ?case by (rule exI)
next
  case (3 n c k s g cap)
  show ?case
  proof (cases s)
    case Nil
    then show ?thesis using 3 by simp
  next
    case (Cons x xs)
    show ?thesis
    proof (cases "c x")
      case False
      then show ?thesis using 3 Cons by simp
    next
      case True
      show ?thesis
      proof (cases "bt n (Star c # k) xs g cap")
        case None
        then show ?thesis using 3 Cons True by simp
      next
        case (Some r)
        then have "bt n (Star c # k) xs g cap = Some (rest, m)"
          using "3.prems" Cons True by simp
        from "3.IH"(2) [OF Cons True this] obtain pre where "xs = pre @ rest" by (elim exE)
        then have "s = (x # pre) @ rest" using Cons by simp
        then show ?thesis by (rule exI)
      qed
    qed
  qed
next
  case (4 n c k s g cap)
  then obtain x xs where s: "s = x # xs" and cx: "c x"
    and r: "bt n (Star c # k) xs g cap = Some (rest, m)"
    by (cases s) (auto simp del: bt_Star_Cons bt_Star_Nil split: if_splits)
  from "4.IH" [OF s cx r] obtain pre where "xs = pre @ rest" by (elim exE)
  then have "s = (x # pre) @ rest" using s by simp
  then show ?case by (rule exI)
next
  case (5 n c k s g cap)
  show ?case
  proof (cases "bt n k s g cap")
    case (Some r)
    then have "bt n k s g cap = Some (rest, m)"
      using "5.prems" by (cases s) simp_all
    then show ?thesis by (rule "5.IH"(1))
  next
    case None
    then obtain x xs where s: "s = x # xs" and cx: "c x"
      and r: "bt n (LazyStar c # k) xs g cap = Some (rest, m)"
      using "5.prems" by (cases s) (auto split: if_splits)
    from "5.IH"(2) [OF None s cx r] obtain pre where "xs = pre @ rest" by (elim exE)
    then have "s = (x # pre) @ rest" using s by simp
    then show ?thesis by (rule exI)
  qed
next
  case (6 n ns k s g cap)
  show ?case
  proof (cases "bt n (ns @ k) s g cap")
    case (Some r)
    then have "bt n (ns @ k) s g cap = Some (rest, m)" using "6.prems" by simp
    then show ?thesis by (rule "6.IH"(1))
  next
    case None
    then have "bt n k s g cap = Some (rest, m)" using "6.prems" by simp
    with None show ?thesis by (rule "6.IH"(2))
  qed
next
  case (7 n ns k s g cap)
  then show ?case by simp
next
  case (8 n k s g cap)
  then show ?case by simp
next
  case (9 n k s g cap)
  then show ?case by (simp split: if_splits)
next
  case (10 n k s g cap)
  then show ?case by (simp split: if_splits)
qed

lemma match_at_suffix:
  "match_at n r s = Some (rest, m) \<Longrightarrow> \<exists>pre. s = pre @ rest"
proof (induction r)
  case Nil
  then show ?case by simp
next
  case (Cons a r)
  show ?case
  proof (cases "bt n a s s None")
    case None
    then show ?thesis using Cons by simp
  next
    case (Some x)
    then have "bt n a s s None = Some (rest, m)" using Cons.prems by simp
    then show ?thesis by (rule bt_suffix)
  qed
qed

lemma match_at_empty:
  "match_at n r s = Some (rest, m) \<Longrightarrow> \<not> length rest < length s \<Longrightarrow> rest = s"
proof -
  assume a: "match_at n r s = Some (rest, m)" and l: "\<not> length rest < length s"
  from match_at_suffix [OF a] obtain pre where "s = pre @ rest" by (elim exE)
  then show ?thesis using l by (cases pre) auto
qed

subsection \<open>The section pattern: a lazy capture up to two newlines\<close>

lemma bt_lazy_any:
  assumes "l \<noteq> []"
  shows "length s \<le> length g \<Longrightarrow>
    bt n [LazyStar any_char, GClose, Lit l] s g cap =
      (if str_includes s l
       then Some (after l s, Some (take (length g - length s + length (before l s)) g))
       else None)"
proof (induction s)
  case Nil
  then show ?case using assms by simp
next
  case (Cons x xs)
  then have "length xs \<le> length g" by simp
  note IH = Cons.IH [OF this]
  show ?case
  proof (cases "startsWith (x # xs) l")
    case True
    then show ?thesis by simp
  next
    case False
    have eq: "length g - length xs = Suc (length g - Suc (length xs))"
      using Cons.prems by simp
    show ?thesis using False IH by (simp add: any_char_def eq)
  qed
qed

lemma bt_group_lazy_any:
  assumes "l \<noteq> []"
  shows "bt n [Group [LazyStar any_char], Lit l] s g cap =
      (if str_includes s l then Some (after l s, Some (before l s)) else None)"
  using bt_lazy_any [OF assms, of s s n cap] by (simp add: take_before)

lemma str_includes_Cons_first:
  "str_includes (x # xs) l \<Longrightarrow> \<not> str_includes xs l \<Longrightarrow> before l (x # xs) = []"
  by auto

lemma bt_section_body:
  assumes "l \<noteq> []"
  shows "map_option snd (bt n [Star is_space, Group [LazyStar any_char], Lit l] s g cap) =
      (if str_includes (dropWhile is_space s) l
         then Some (Some (before l (dropWhile is_space s)))
       else if str_includes s l then Some (Some [])
       else None)"
proof (induction s)
  case Nil
  then show ?case using assms by (simp add: bt_group_lazy_any del: bt.simps(7))
next
  case (Cons x xs)
  show ?case
  proof (cases "is_space x")
    case False
    then show ?thesis using assms by (simp add: bt_group_lazy_any del: bt.simps(7))
  next
    case sp: True
    show ?thesis
    proof (cases "bt n [Star is_space, Group [LazyStar any_char], Lit l] xs g cap")
      case None
      then have no: "\<not> str_includes (dropWhile is_space xs) l" "\<not> str_includes xs l"
        using Cons.IH by (auto split: if_splits)
      show ?thesis using None no sp assms
        by (simp add: bt_group_lazy_any del: str_includes.simps bt.simps(7))
           (auto simp: str_includes_Cons_first)
    next
      case (Some r)
      then show ?thesis using Cons.IH sp by (auto split: if_splits)
    qed
  qed
qed

lemma match_at_section:
  "map_option snd (match_at n (re_section hdr) s) =
     (if startsWith s hdr
      then (let rest = drop (length hdr) s in
            if str_includes (dropWhile is_space rest) ''\<newline>\<newline>''
              then Some (Some (before ''\<newline>\<newline>'' (dropWhile is_space rest)))
            else if str_includes rest ''\<newline>\<newline>'' then Some (Some [])
            else None)
      else None)"
proof (cases "startsWith s hdr")
  case False
  then show ?thesis by (simp add: re_section_def)
next
  case True
  have "map_option snd (match_at n (re_section hdr) s) =
        map_option snd (bt n [Star is_space, Group [LazyStar any_char], Lit ''\<newline>\<newline>'']
                          (drop (length hdr) s) s None)"
    using True by (simp add: re_section_def del: bt.simps(7) split: option.splits)
  then show ?thesis using True by (simp add: bt_section_body Let_def)
qed

lemma match_at_section_None:
  "\<not> str_includes (drop (length hdr) s) ''\<newline>\<newline>'' \<Longrightarrow> match_at n (re_section hdr) s = None"
proof -
  assume a: "\<not> str_includes (drop (length hdr) s) ''\<newline>\<newline>''"
  then have "\<not> str_includes (dropWhile is_space (drop (length hdr) s)) ''\<newline>\<newline>''"
    by (metis str_includes_drop dropWhile_eq_drop)
  then have "map_option snd (match_at n (re_section hdr) s) = None"
    using a by (simp add: match_at_section Let_def)
  then show ?thesis by simp
qed

lemma rx_search_section_None:
  "\<not> str_includes (drop (length hdr) s) ''\<newline>\<newline>'' \<Longrightarrow> rx_search n (re_section hdr) s = None"
proof (induction s)
  case Nil
  then show ?case using match_at_section_None [of hdr "[]" n] by simp
next
  case (Cons c cs)
  have "drop (length hdr) cs = drop 1 (drop (length hdr) (c # cs))"
    by (simp only: drop_drop) simp
  then have "\<not> str_includes (drop (length hdr) cs) ''\<newline>\<newline>''"
    using Cons.prems str_includes_drop by metis
  then have "rx_search n (re_section hdr) cs = None" by (rule Cons.IH)
  then show ?case using match_at_section_None [OF Cons.prems, of n] by simp
qed

lemma rx_search_section:
  assumes "hdr \<noteq> []"
  shows "map_option snd (rx_search n (re_section hdr) s) = map_option Some (section_text hdr s)"
proof (induction s)
  case Nil
  have "match_at n (re_section hdr) [] = None"
    using assms by (simp add: re_section_def)
  then show ?case using assms by (simp add: section_text_def)
next
  case (Cons c cs)
  show ?case
  proof (cases "startsWith (c # cs) hdr")
    case False
    then have "match_at n (re_section hdr) (c # cs) = None"
      by (simp add: re_section_def)
    then show ?thesis using False Cons.IH by (simp add: section_text_def Let_def)
  next
    case True
    show ?thesis
    proof (cases "match_at n (re_section hdr) (c # cs)")
      case (Some r)
      then have "map_option snd (rx_search n (re_section hdr) (c # cs)) =
                 map_option snd (match_at n (re_section hdr) (c # cs))" by simp
      also have "\<dots> = map_option Some (section_text hdr (c # cs))"
        using True by (simp add: match_at_section section_text_def Let_def
            del: match_at.simps)
      finally show ?thesis .
    next
      case None
      then have no: "\<not> str_includes (drop (length hdr) (c # cs)) ''\<newline>\<newline>''"
        using True match_at_section [of n hdr "c # cs"]
        by (auto simp: Let_def split: if_splits)
      have "drop (length hdr) cs = drop 1 (drop (length hdr) (c # cs))"
        by (simp only: drop_drop) simp
      then have "\<not> str_includes (drop (length hdr) cs) ''\<newline>\<newline>''"
        using no str_includes_drop by metis
      then have "rx_search n (re_section hdr) cs = None" by (rule rx_search_section_None)
      moreover have "\<not> str_includes (dropWhile is_space (drop (length hdr) (c # cs))) ''\<newline>\<newline>''"
        using no by (metis str_includes_drop dropWhile_eq_drop)
      ultimately show ?thesis using None True no
        by (simp add: section_text_def Let_def del: str_includes.simps)
    qed
  qed
qed

lemma rx_match_section:
  "hdr \<noteq> [] \<Longrightarrow> rx_match (re_section hdr) text = map_option Some (section_text hdr text)"
  by (simp add: rx_match_def rx_search_section)

subsection \<open>A label followed by a greedy capture\<close>

lemma bt_star_close:
  "length s \<le> length g \<Longrightarrow>
   bt n [Star c, GClose] s g cap =
     Some (dropWhile c s, Some (take (length g - length (dropWhile c s)) g))"
  by (induction s) auto

lemma take_takeWhile: "take (length s - length (dropWhile c s)) s = takeWhile c s"
proof -
  have "length s - length (dropWhile c s) = length (takeWhile c s)"
    by (metis add_diff_cancel_right' length_append takeWhile_dropWhile_id)
  then show ?thesis
    by (metis append_eq_conv_conj takeWhile_dropWhile_id)
qed

lemma bt_plus_group:
  "bt n [Group [Plus c]] s g cap =
     (case s of
        [] \<Rightarrow> None
      | x # xs \<Rightarrow> if c x then Some (dropWhile c s, Some (takeWhile c s)) else None)"
proof (cases s)
  case Nil
  then show ?thesis by simp
next
  case (Cons x xs)
  show ?thesis
  proof (cases "c x")
    case False
    then show ?thesis using Cons by simp
  next
    case True
    have "bt n [Group [Plus c]] s g cap = bt n [Star c, GClose] xs (x # xs) cap"
      using Cons True by simp
    also have "\<dots> = Some (dropWhile c xs, Some (take (length (x # xs) - length (dropWhile c xs)) (x # xs)))"
      by (rule bt_star_close) simp
    also have "take (length (x # xs) - length (dropWhile c xs)) (x # xs) = takeWhile c (x # xs)"
      using take_takeWhile [of "x # xs" c] True by simp
    finally show ?thesis using Cons True by simp
  qed
qed

lemma rx_search_label:
  assumes "l \<noteq> []"
  shows "str_includes s l \<Longrightarrow> after l s = x # xs \<Longrightarrow> c x \<Longrightarrow>
    rx_search n [[Lit l, Group [Plus c]]] s =
      Some (dropWhile c (after l s), Some (takeWhile c (after l s)))"
proof (induction s)
  case Nil
  then show ?case using assms by simp
next
  case (Cons y ys)
  show ?case
  proof (cases "startsWith (y # ys) l")
    case True
    then show ?thesis using Cons.prems
      by (simp add: bt_plus_group del: bt.simps(7) bt.simps(4))
  next
    case False
    then show ?thesis using Cons by simp
  qed
qed

lemma str_includes_prefix: "str_includes s (a @ b) \<Longrightarrow> str_includes s a"
  unfolding str_includes_iff by (metis append.assoc)

subsection \<open>What a successful match says about the input\<close>

lemma rx_search_sound:
  "rx_search n r s = Some m \<Longrightarrow> \<exists>pre t. s = pre @ t \<and> match_at n r t = Some m"
proof (induction s)
  case Nil
  then show ?case by simp
next
  case (Cons c cs)
  show ?case
  proof (cases "match_at n r (c # cs)")
    case (Some a)
    then have "match_at n r (c # cs) = Some m" using Cons.prems by simp
    then have "c # cs = [] @ (c # cs) \<and> match_at n r (c # cs) = Some m" by simp
    then show ?thesis by blast
  next
    case None
    then have "rx_search n r cs = Some m" using Cons.prems by simp
    then obtain pre t where "cs = pre @ t" "match_at n r t = Some m"
      using Cons.IH by blast
    then have "c # cs = (c # pre) @ t \<and> match_at n r t = Some m" by simp
    then show ?thesis by blast
  qed
qed

lemma bt_LazyStar_sound:
  "bt n (LazyStar c # k) s g cap = Some r \<Longrightarrow>
     \<exists>a b. s = a @ b \<and> (\<forall>x\<in>set a. c x) \<and> bt n k b g cap = Some r"
proof (induction s)
  case Nil
  then have "bt n k [] g cap = Some r" by simp
  then show ?case by (rule_tac x = "[]" in exI, rule_tac x = "[]" in exI, simp)
next
  case (Cons x xs)
  show ?case
  proof (cases "bt n k (x # xs) g cap")
    case (Some a)
    then have "bt n k (x # xs) g cap = Some r" using Cons.prems by simp
    then show ?thesis by (rule_tac x = "[]" in exI, rule_tac x = "x # xs" in exI, simp)
  next
    case None
    then have cx: "c x" and "bt n (LazyStar c # k) xs g cap = Some r"
      using Cons.prems by (auto split: if_splits)
    from Cons.IH [OF this(2)] obtain a b
      where ab: "xs = a @ b" "\<forall>x\<in>set a. c x" "bt n k b g cap = Some r"
      by (elim exE conjE)
    show ?thesis using ab cx by (rule_tac x = "x # a" in exI, rule_tac x = b in exI, simp)
  qed
qed


lemma bt_Lit_sound:
  "bt n (Lit l # k) s g cap = Some r \<Longrightarrow> \<exists>b. s = l @ b \<and> bt n k b g cap = Some r"
  by (auto simp: startsWith_iff split: if_splits)

lemma bt_flags_sound:
  assumes "bt n [Lit ''pkgFlags=['', LazyStar is_dot, Lit ''HAS_CODE'', LazyStar is_dot, Lit '']''] s g cap = Some r"
  shows "\<exists>b c d. s = ''pkgFlags=['' @ b @ ''HAS_CODE'' @ c @ '']'' @ d \<and> (\<forall>x\<in>set (b @ c). is_dot x)"
proof -
  from bt_Lit_sound [OF assms] obtain s1 where s1: "s = ''pkgFlags=['' @ s1"
    and 1: "bt n [LazyStar is_dot, Lit ''HAS_CODE'', LazyStar is_dot, Lit '']''] s1 g cap = Some r"
    by (elim exE conjE)
  from bt_LazyStar_sound [OF 1] obtain b s2 where s2: "s1 = b @ s2" "\<forall>x\<in>set b. is_dot x"
    and 2: "bt n [Lit ''HAS_CODE'', LazyStar is_dot, Lit '']''] s2 g cap = Some r"
    by (elim exE conjE)
  from bt_Lit_sound [OF 2] obtain s3 where s3: "s2 = ''HAS_CODE'' @ s3"
    and 3: "bt n [LazyStar is_dot, Lit '']''] s3 g cap = Some r"
    by (elim exE conjE)
  from bt_LazyStar_sound [OF 3] obtain c s4 where s4: "s3 = c @ s4" "\<forall>x\<in>set c. is_dot x"
    and 4: "bt n [Lit '']''] s4 g cap = Some r"
    by (elim exE conjE)
  from bt_Lit_sound [OF 4] obtain d where d: "s4 = '']'' @ d" and "bt n [] d g cap = Some r"
    by (elim exE conjE)
  have "s = ''pkgFlags=['' @ b @ ''HAS_CODE'' @ c @ '']'' @ d"
    by (simp only: s1 s2 s3 s4 d)
  moreover have "\<forall>x\<in>set (b @ c). is_dot x"
    using s2(2) s4(2) by auto
  ultimately show ?thesis by (intro exI conjI)
qed

section \<open>Properties of \<open>parseDumpsysPackage\<close>\<close>

lemma rx_split_newline_Nil [simp]: "rx_split re_newline [] = [[]]"
  by (simp add: rx_split_def re_newline_def)

lemma trim_Nil [simp]: "trim [] = []"
  by (simp add: trim_def)

lemma section_text_includes:
  assumes "section_text hdr text = Some t"
  shows "\<exists>pre mid post. text = pre @ hdr @ mid @ ''\<newline>\<newline>'' @ post"
proof -
  have inc: "str_includes (after hdr text) ''\<newline>\<newline>''"
  proof (rule ccontr)
    assume no: "\<not> str_includes (after hdr text) ''\<newline>\<newline>''"
    then have "\<not> str_includes (dropWhile is_space (after hdr text)) ''\<newline>\<newline>''"
      by (metis str_includes_drop dropWhile_eq_drop)
    then show False using assms no by (simp add: section_text_def Let_def)
  qed
  then have "after hdr text \<noteq> []" by auto
  then have "str_includes text hdr" using after_none by blast
  then have 1: "before hdr text @ hdr @ after hdr text = text" by (rule before_after)
  from inc obtain a b where 2: "after hdr text = a @ ''\<newline>\<newline>'' @ b"
    unfolding str_includes_iff by (elim exE)
  have "text = before hdr text @ hdr @ a @ ''\<newline>\<newline>'' @ b"
    using 1 2 by simp
  then show ?thesis by (intro exI)
qed

lemma requested_lines_eq:
  "requested_lines text =
     Inr (case section_text ''requested permissions:'' text of
            None \<Rightarrow> []
          | Some t \<Rightarrow> filter (\<lambda>s. s \<noteq> [] \<and> \<not> str_includes s ''granted=true'')
                       (map trim (rx_split re_newline t)))"
  by (simp add: requested_lines_def capture_lines_def re_requested_def rx_match_section
        split: option.splits)

lemma granted_lines_eq:
  "granted_lines text =
     Inr (case section_text ''grantedPermissions:'' text of
            None \<Rightarrow> []
          | Some t \<Rightarrow> filter (\<lambda>s. s \<noteq> []) (map trim (rx_split re_newline t)))"
  by (simp add: granted_lines_def capture_lines_def re_granted_def rx_match_section
        split: option.splits)

text \<open>The parser returns, and these are the fields of what it returns.\<close>

lemma parseDumpsysPackage_fields:
  "\<exists>d. parseDumpsysPackage text = Inr d
     \<and> versionName d = get text re_versionName []
     \<and> versionCode d = get text re_versionCode []
     \<and> appId d = get text re_appId []
     \<and> userId d = get text re_userId []
     \<and> enabled d =
          (if rx_test re_enabled_true text then Some True
           else if rx_test re_enabled_false text then Some False
           else None)
     \<and> requested d =
          (case section_text ''requested permissions:'' text of
             None \<Rightarrow> []
           | Some t \<Rightarrow> filter (\<lambda>s. s \<noteq> [] \<and> \<not> str_includes s ''granted=true'')
                        (map trim (rx_split re_newline t)))
     \<and> granted d =
          (case section_text ''grantedPermissions:'' text of
             None \<Rightarrow> []
           | Some t \<Rightarrow> filter (\<lambda>s. s \<noteq> []) (map trim (rx_split re_newline t)))"
  by (simp add: parseDumpsysPackage_def requested_lines_eq granted_lines_eq)

text \<open>
  C4, as stated: the requested permissions are the lines after the header up to the next
  blank line.  When a blank line directly follows the header, the lines up to it are none,
  but the pattern skips all whitespace after the header, blank lines included, and
  captures up to the blank line after that.
\<close>

theorem requested_counterexample:
  "parseDumpsysPackage ''requested permissions:\<newline>\<newline>foo\<newline>\<newline>'' =
     Inr \<lparr>versionName = [], versionCode = [], appId = [], userId = [], enabled = None,
          requested = [''foo''], granted = []\<rparr>
   \<and> claimed_requested ''requested permissions:\<newline>\<newline>foo\<newline>\<newline>'' = []"
  by code_simp

text \<open>
  C4, amended: for every input text, the requested permissions are the lines of the text
  that follows the first \<open>requested permissions:\<close> header and the whitespace after it
  (blank lines included), up to the next two consecutive newlines, each line trimmed, with
  empty lines and lines containing \<open>granted=true\<close> excluded, in input order; the sequence
  is empty when the header is absent or no two consecutive newlines follow that whitespace.
\<close>

theorem requested_after_whitespace:
  "\<exists>d. parseDumpsysPackage text = Inr d
     \<and> requested d =
         (let body = dropWhile is_space (after ''requested permissions:'' text) in
          if str_includes body ''\<newline>\<newline>''
          then filter (\<lambda>s. s \<noteq> [] \<and> \<not> str_includes s ''granted=true'')
                 (map trim (rx_split re_newline (before ''\<newline>\<newline>'' body)))
          else [])"
proof -
  from parseDumpsysPackage_fields [of "text"] obtain d
    where d: "parseDumpsysPackage text = Inr d"
      and r: "requested d =
          (case section_text ''requested permissions:'' text of
             None \<Rightarrow> []
           | Some t \<Rightarrow> filter (\<lambda>s. s \<noteq> [] \<and> \<not> str_includes s ''granted=true'')
                        (map trim (rx_split re_newline t)))"
    by (elim exE conjE)
  have "requested d =
         (let body = dropWhile is_space (after ''requested permissions:'' text) in
          if str_includes body ''\<newline>\<newline>''
          then filter (\<lambda>s. s \<noteq> [] \<and> \<not> str_includes s ''granted=true'')
                 (map trim (rx_split re_newline (before ''\<newline>\<newline>'' body)))
          else [])"
    unfolding r by (simp add: section_text_def Let_def)
  with d show ?thesis by (intro exI conjI)
qed

text \<open>
  C10: a \<open>requested permissions:\<close> or \<open>grantedPermissions:\<close> section is extracted only
  if two consecutive newlines occur somewhere after the header; for every text without
  them after the header (the section may run to the end of the input), the permission
  sequence is empty.
\<close>

theorem section_needs_blank_line:
  "(\<not> (\<exists>pre mid post. text = pre @ ''requested permissions:'' @ mid @ ''\<newline>\<newline>'' @ post)
      \<longrightarrow> (\<exists>d. parseDumpsysPackage text = Inr d \<and> requested d = []))
   \<and> (\<not> (\<exists>pre mid post. text = pre @ ''grantedPermissions:'' @ mid @ ''\<newline>\<newline>'' @ post)
      \<longrightarrow> (\<exists>d. parseDumpsysPackage text = Inr d \<and> granted d = []))"
proof -
  from parseDumpsysPackage_fields [of "text"] obtain d
    where d: "parseDumpsysPackage text = Inr d"
      and r: "requested d =
          (case section_text ''requested permissions:'' text of
             None \<Rightarrow> []
           | Some t \<Rightarrow> filter (\<lambda>s. s \<noteq> [] \<and> \<not> str_includes s ''granted=true'')
                        (map trim (rx_split re_newline t)))"
      and g: "granted d =
          (case section_text ''grantedPermissions:'' text of
             None \<Rightarrow> []
           | Some t \<Rightarrow> filter (\<lambda>s. s \<noteq> []) (map trim (rx_split re_newline t)))"
    by (elim exE conjE)
  show ?thesis
  proof (intro conjI impI)
    assume no: "\<not> (\<exists>pre mid post. text = pre @ ''requested permissions:'' @ mid @ ''\<newline>\<newline>'' @ post)"
    have "section_text ''requested permissions:'' text = None"
    proof (cases "section_text ''requested permissions:'' text")
      case (Some t)
      from section_text_includes [OF this] no show ?thesis by simp
    qed simp
    then have "requested d = []" unfolding r by simp
    with d show "\<exists>d. parseDumpsysPackage text = Inr d \<and> requested d = []"
      by (intro exI conjI)
  next
    assume no: "\<not> (\<exists>pre mid post. text = pre @ ''grantedPermissions:'' @ mid @ ''\<newline>\<newline>'' @ post)"
    have "section_text ''grantedPermissions:'' text = None"
    proof (cases "section_text ''grantedPermissions:'' text")
      case (Some t)
      from section_text_includes [OF this] no show ?thesis by simp
    qed simp
    then have "granted d = []" unfolding g by simp
    with d show "\<exists>d. parseDumpsysPackage text = Inr d \<and> granted d = []"
      by (intro exI conjI)
  qed
qed

lemma blank_line_after_includes:
  "\<exists>pre mid post. text = pre @ hdr @ mid @ sub @ post \<Longrightarrow> str_includes text sub"
proof -
  assume "\<exists>pre mid post. text = pre @ hdr @ mid @ sub @ post"
  then obtain pre mid post where "text = pre @ hdr @ mid @ sub @ post" by (elim exE)
  then have "text = (pre @ hdr @ mid) @ sub @ post" by simp
  then show ?thesis unfolding str_includes_iff by (intro exI)
qed

text \<open>
  C10 at an input with both headers, whose sections run to the end of the input without
  a blank line.
\<close>

theorem section_needs_blank_line_witness:
  "\<not> (\<exists>pre mid post. ''requested permissions:\<newline>  a.b\<newline>grantedPermissions:\<newline>  c.d\<newline>''
         = pre @ ''requested permissions:'' @ mid @ ''\<newline>\<newline>'' @ post)
   \<and> \<not> (\<exists>pre mid post. ''requested permissions:\<newline>  a.b\<newline>grantedPermissions:\<newline>  c.d\<newline>''
         = pre @ ''grantedPermissions:'' @ mid @ ''\<newline>\<newline>'' @ post)
   \<and> (\<exists>d. parseDumpsysPackage ''requested permissions:\<newline>  a.b\<newline>grantedPermissions:\<newline>  c.d\<newline>'' = Inr d
          \<and> requested d = [])
   \<and> (\<exists>d. parseDumpsysPackage ''requested permissions:\<newline>  a.b\<newline>grantedPermissions:\<newline>  c.d\<newline>'' = Inr d
          \<and> granted d = [])"
proof -
  let ?W = "''requested permissions:\<newline>  a.b\<newline>grantedPermissions:\<newline>  c.d\<newline>''"
  have n: "\<not> str_includes ?W ''\<newline>\<newline>''" by code_simp
  have 1: "\<not> (\<exists>pre mid post. ?W = pre @ ''requested permissions:'' @ mid @ ''\<newline>\<newline>'' @ post)"
    using n blank_line_after_includes [of ?W "''requested permissions:''" "''\<newline>\<newline>''"] by (rule contrapos_nn)
  have 2: "\<not> (\<exists>pre mid post. ?W = pre @ ''grantedPermissions:'' @ mid @ ''\<newline>\<newline>'' @ post)"
    using n blank_line_after_includes [of ?W "''grantedPermissions:''" "''\<newline>\<newline>''"] by (rule contrapos_nn)
  note T = section_needs_blank_line [of ?W]
  show ?thesis
    by (intro conjI) (rule 1 2 T [THEN conjunct1, THEN mp, OF 1] T [THEN conjunct2, THEN mp, OF 2])+
qed

lemma rx_search_enabled_None:
  assumes h3: "\<not> str_includes text ''enabled=''"
    and h4: "\<not> (\<exists>a b c d. text = a @ ''pkgFlags=['' @ b @ ''HAS_CODE'' @ c @ '']'' @ d
                  \<and> (\<forall>x\<in>set (b @ c). is_dot x))"
  shows "rx_search n re_enabled_true text = None"
proof (cases "rx_search n re_enabled_true text")
  case None
  then show ?thesis .
next
  case (Some m)
  from rx_search_sound [OF this] obtain pre t
    where t: "text = pre @ t" and m: "match_at n re_enabled_true t = Some m"
    by (elim exE conjE)
  show ?thesis
  proof (cases "bt n [Lit ''enabled=true''] t t None")
    case (Some r)
    from bt_Lit_sound [OF this] obtain b where "t = ''enabled=true'' @ b"
      by (elim exE conjE)
    then have "text = pre @ (''enabled='' @ ''true'') @ b" using t by simp
    then have "str_includes text (''enabled='' @ ''true'')"
      unfolding str_includes_iff by (intro exI)
    then have "str_includes text ''enabled=''" by (rule str_includes_prefix)
    then show ?thesis using h3 by simp
  next
    case None
    then have "bt n [Lit ''pkgFlags=['', LazyStar is_dot, Lit ''HAS_CODE'', LazyStar is_dot, Lit '']''] t t None = Some m"
      using m by (simp add: re_enabled_true_def del: bt.simps(2) split: option.splits)
    from bt_flags_sound [OF this] obtain b c d
      where "t = ''pkgFlags=['' @ b @ ''HAS_CODE'' @ c @ '']'' @ d" "\<forall>x\<in>set (b @ c). is_dot x"
      by (elim exE conjE)
    then have "text = pre @ ''pkgFlags=['' @ b @ ''HAS_CODE'' @ c @ '']'' @ d \<and> (\<forall>x\<in>set (b @ c). is_dot x)"
      using t by simp
    then have "\<exists>a b c d. text = a @ ''pkgFlags=['' @ b @ ''HAS_CODE'' @ c @ '']'' @ d
                  \<and> (\<forall>x\<in>set (b @ c). is_dot x)"
      by (intro exI)
    then show ?thesis using h4 by simp
  qed
qed

lemma rx_search_lit_None:
  "\<not> str_includes s l \<Longrightarrow> rx_search n [Lit l # k] s = None"
  by (induction s) auto

lemma enabled_tests_false:
  assumes h3: "\<not> str_includes text ''enabled=''"
    and h4: "\<not> (\<exists>a b c d. text = a @ ''pkgFlags=['' @ b @ ''HAS_CODE'' @ c @ '']'' @ d
                  \<and> (\<forall>x\<in>set (b @ c). is_dot x))"
  shows "\<not> rx_test re_enabled_true text \<and> \<not> rx_test re_enabled_false text"
proof
  show "\<not> rx_test re_enabled_true text"
    using rx_search_enabled_None [OF h3 h4] by (simp add: rx_test_def rx_match_def)
  have "\<not> str_includes text (''enabled='' @ ''false'')"
    using h3 str_includes_prefix by blast
  then have "rx_search (length text) [Lit ''enabled=false'' # []] text = None"
    using rx_search_lit_None [of "text" "''enabled=false''"] by simp
  then show "\<not> rx_test re_enabled_false text"
    by (simp add: rx_test_def rx_match_def re_enabled_false_def)
qed

text \<open>
  C3, amended: for every text in which the first occurrence of \<open>versionName=\<close> is
  followed by \<open>1.2.3\<close> and then by the end of the text or a character outside
  \<open>[\w.\-+]\<close>, and which contains neither \<open>enabled=\<close> nor, within one line, a block
  \<open>pkgFlags=[\<close> ... \<open>HAS_CODE\<close> ... \<open>]\<close>, the result has \<open>versionName\<close> equal to \<open>1.2.3\<close>
  and \<open>enabled\<close> null.
\<close>

theorem versionName_enabled:
  assumes h1: "after ''versionName='' text = ''1.2.3'' @ post"
    and h2: "post = [] \<or> \<not> version_char (hd post)"
    and h3: "\<not> str_includes text ''enabled=''"
    and h4: "\<not> (\<exists>a b c d. text = a @ ''pkgFlags=['' @ b @ ''HAS_CODE'' @ c @ '']'' @ d
                  \<and> (\<forall>x\<in>set (b @ c). is_dot x))"
  shows "\<exists>d. parseDumpsysPackage text = Inr d \<and> versionName d = ''1.2.3'' \<and> enabled d = None"
proof -
  from parseDumpsysPackage_fields [of "text"] obtain d
    where d: "parseDumpsysPackage text = Inr d"
      and v: "versionName d = get text re_versionName []"
      and e: "enabled d =
          (if rx_test re_enabled_true text then Some True
           else if rx_test re_enabled_false text then Some False
           else None)"
    by (elim exE conjE)
  have inc: "str_includes text ''versionName=''"
    using h1 after_none [of "text" "''versionName=''"] by auto
  have vc: "version_char (CHR ''1'')" by (simp add: version_char_def is_word_def)
  have tw: "takeWhile version_char (''1.2.3'' @ post) = ''1.2.3''"
    using h2 by (cases post) (simp_all add: version_char_def is_word_def)
  have "rx_search (length text) [[Lit ''versionName='', Group [Plus version_char]]] text =
        Some (dropWhile version_char (after ''versionName='' text),
              Some (takeWhile version_char (after ''versionName='' text)))"
    by (rule rx_search_label [where x = "CHR ''1''" and xs = "''.2.3'' @ post"])
       (use inc h1 vc in simp_all)
  then have "rx_match re_versionName text = Some (Some ''1.2.3'')"
    using h1 tw by (simp add: rx_match_def re_versionName_def)
  then have 1: "versionName d = ''1.2.3''"
    unfolding v by (simp add: get_def)
  have 2: "enabled d = None"
    unfolding e using enabled_tests_false [OF h3 h4] by simp
  from d 1 2 show ?thesis by (intro exI conjI)
qed

text \<open>
  C3, as stated: every text that contains \<open>versionName=1.2.3\<close> and no \<open>enabled=\<close> gives
  \<open>enabled\<close> null.  A text with a package-flags block that names \<open>HAS_CODE\<close> gives
  \<open>enabled = true\<close>.
\<close>

theorem versionName_enabled_counterexample:
  "str_includes ''versionName=1.2.3 pkgFlags=[ HAS_CODE ]'' ''versionName=1.2.3''
   \<and> \<not> str_includes ''versionName=1.2.3 pkgFlags=[ HAS_CODE ]'' ''enabled=''
   \<and> parseDumpsysPackage ''versionName=1.2.3 pkgFlags=[ HAS_CODE ]'' =
       Inr \<lparr>versionName = ''1.2.3'', versionCode = [], appId = [], userId = [],
            enabled = Some True, requested = [], granted = []\<rparr>"
  by code_simp

lemma flags_block_includes:
  "\<exists>a b c d. text = a @ p @ b @ h @ c @ q @ d \<and> P b c \<Longrightarrow> str_includes text p"
proof -
  assume "\<exists>a b c d. text = a @ p @ b @ h @ c @ q @ d \<and> P b c"
  then obtain a b c d where "text = a @ p @ (b @ h @ c @ q @ d)" by (elim exE conjE) simp
  then show ?thesis unfolding str_includes_iff by (intro exI)
qed

text \<open>C3, amended, at a line of a package dump.\<close>

theorem versionName_enabled_witness:
  "after ''versionName='' ''  versionName=1.2.3 minSdk=21'' = ''1.2.3'' @ '' minSdk=21''
   \<and> \<not> version_char (hd '' minSdk=21'')
   \<and> \<not> str_includes ''  versionName=1.2.3 minSdk=21'' ''enabled=''
   \<and> (\<exists>d. parseDumpsysPackage ''  versionName=1.2.3 minSdk=21'' = Inr d
          \<and> versionName d = ''1.2.3'' \<and> enabled d = None)"
proof -
  let ?W = "''  versionName=1.2.3 minSdk=21''"
  have h1: "after ''versionName='' ?W = ''1.2.3'' @ '' minSdk=21''" by code_simp
  have h2': "\<not> version_char (hd '' minSdk=21'')" by code_simp
  then have h2: "'' minSdk=21'' = [] \<or> \<not> version_char (hd '' minSdk=21'')" by (rule disjI2)
  have h3: "\<not> str_includes ?W ''enabled=''" by code_simp
  have "\<not> str_includes ?W ''pkgFlags=[''" by code_simp
  then have h4: "\<not> (\<exists>a b c d. ?W = a @ ''pkgFlags=['' @ b @ ''HAS_CODE'' @ c @ '']'' @ d
                  \<and> (\<forall>x\<in>set (b @ c). is_dot x))"
    using flags_block_includes [of ?W "''pkgFlags=[''" "''HAS_CODE''" "'']''" "\<lambda>b c. \<forall>x\<in>set (b @ c). is_dot x"]
    by (rule contrapos_nn)
  show ?thesis
    by (intro conjI) (rule h1 h2' h3 versionName_enabled [OF h1 h2 h3 h4])+
qed

section \<open>Splitting on whitespace\<close>

lemma bt_star_end: "bt n [Star c] s g cap = Some (dropWhile c s, cap)"
  by (induction s) auto

lemma match_at_spaces:
  "match_at n re_spaces s =
     (case s of
        [] \<Rightarrow> None
      | x # xs \<Rightarrow> if is_space x then Some (dropWhile is_space xs, None) else None)"
  by (cases s) (simp_all add: re_spaces_def bt_star_end)

lemma split_loop_spaces_Cons:
  "split_loop n re_spaces cur (c # cs) =
     (if is_space c then cur # split_loop n re_spaces [] (dropWhile is_space cs)
      else split_loop n re_spaces (cur @ [c]) cs)"
proof -
  have "length (dropWhile is_space cs) < Suc (length cs)"
    by (simp add: length_dropWhile_le less_Suc_eq_le)
  then show ?thesis by (simp add: match_at_spaces)
qed

lemma words_acc_spaces:
  "\<forall>c\<in>set ws. is_space c \<Longrightarrow> words_acc [] (ws @ s) = words_acc [] s"
  by (induction ws) auto

lemma words_acc_dropWhile: "words_acc [] (dropWhile is_space s) = words_acc [] s"
proof -
  have "words_acc [] (takeWhile is_space s @ dropWhile is_space s) = words_acc [] (dropWhile is_space s)"
    by (rule words_acc_spaces) (auto dest: set_takeWhileD)
  then show ?thesis by simp
qed

lemma split_loop_spaces_words:
  "(s = [] \<or> \<not> is_space (last s)) \<Longrightarrow> (cur \<noteq> [] \<or> (s \<noteq> [] \<and> \<not> is_space (hd s))) \<Longrightarrow>
   split_loop n re_spaces cur s = words_acc cur s"
proof (induction "length s" arbitrary: s cur rule: less_induct)
  case less
  show ?case
  proof (cases s)
    case Nil
    then show ?thesis using less.prems by simp
  next
    case (Cons c cs)
    show ?thesis
    proof (cases "is_space c")
      case False
      have "split_loop n re_spaces (cur @ [c]) cs = words_acc (cur @ [c]) cs"
      proof (rule less.hyps)
        show "length cs < length s" using Cons by simp
        show "cs = [] \<or> \<not> is_space (last cs)" using less.prems(1) Cons by (auto split: if_splits)
        show "cur @ [c] \<noteq> [] \<or> cs \<noteq> [] \<and> \<not> is_space (hd cs)" by simp
      qed
      then show ?thesis using False Cons
        by (simp add: split_loop_spaces_Cons del: split_loop.simps)
    next
      case True
      then have cur: "cur \<noteq> []" using less.prems(2) Cons by auto
      have cs: "cs \<noteq> []" "\<not> is_space (last cs)"
        using less.prems(1) Cons True by (auto split: if_splits)
      let ?d = "dropWhile is_space cs"
      have d: "?d \<noteq> []" using cs
        by (metis dropWhile_eq_Nil_conv last_in_set)
      have last: "last ?d = last cs" using d
        by (metis last_appendR takeWhile_dropWhile_id)
      have "split_loop n re_spaces [] ?d = words_acc [] ?d"
      proof (rule less.hyps)
        show "length ?d < length s" using Cons
          by (simp add: length_dropWhile_le less_Suc_eq_le)
        show "?d = [] \<or> \<not> is_space (last ?d)" using last cs by simp
        show "[] \<noteq> [] \<or> ?d \<noteq> [] \<and> \<not> is_space (hd ?d)"
          using d hd_dropWhile by blast
      qed
      then show ?thesis using True Cons cur
        by (simp add: split_loop_spaces_Cons words_acc_dropWhile del: split_loop.simps)
    qed
  qed
qed

lemma trim_ends:
  "trim s = [] \<or> (\<not> is_space (hd (trim s)) \<and> \<not> is_space (last (trim s)))"
proof (cases "trim s = []")
  case False
  let ?a = "dropWhile is_space s"
  let ?b = "dropWhile is_space (rev ?a)"
  have t: "trim s = rev ?b" by (simp add: trim_def)
  then have b: "?b \<noteq> []" using False by simp
  then have "\<not> is_space (hd ?b)" using hd_dropWhile by blast
  then have l: "\<not> is_space (last (trim s))" using t b by (simp add: last_rev)
  have a: "?a \<noteq> []" using b by (metis dropWhile.simps(1) rev_is_Nil_conv)
  then have ha: "\<not> is_space (hd ?a)" using hd_dropWhile by blast
  have "rev ?a = takeWhile is_space (rev ?a) @ ?b" by simp
  then have "?a = rev ?b @ rev (takeWhile is_space (rev ?a))"
    by (metis rev_append rev_rev_ident)
  then have "hd ?a = hd (rev ?b)" using b by (metis hd_append2 rev_is_Nil_conv)
  then have "\<not> is_space (hd (trim s))" using ha t by simp
  then show ?thesis using l by simp
qed simp

lemma rx_split_spaces_trim:
  "trim s \<noteq> [] \<Longrightarrow> rx_split re_spaces (trim s) = words (trim s)"
  using trim_ends [of s] split_loop_spaces_words [of "trim s" "[]"]
  by (simp add: rx_split_def words_def)

subsection \<open>Words are tokens, and joining them with spaces loses nothing\<close>

lemma words_acc_tokens:
  "\<forall>c\<in>set cur. \<not> is_space c \<Longrightarrow> \<forall>t\<in>set (words_acc cur s). is_token t"
proof (induction s arbitrary: cur)
  case Nil
  then show ?case by (simp add: is_token_def)
next
  case (Cons a s)
  have e: "\<forall>t\<in>set (words_acc [] s). is_token t" by (rule Cons.IH) simp
  show ?case
  proof (cases "is_space a")
    case True
    then show ?thesis using e Cons.prems by (simp add: is_token_def)
  next
    case False
    then have "\<forall>t\<in>set (words_acc (cur @ [a]) s). is_token t"
      using Cons.prems by (intro Cons.IH) simp
    then show ?thesis using False by simp
  qed
qed

lemma words_tokens: "t \<in> set (words s) \<Longrightarrow> is_token t"
  using words_acc_tokens [of "[]" s] by (simp add: words_def)

lemma words_acc_token_prefix:
  "\<forall>c\<in>set t. \<not> is_space c \<Longrightarrow> words_acc cur (t @ s) = words_acc (cur @ t) s"
  by (induction t arbitrary: cur) auto

lemma words_acc_token_sep:
  assumes "is_token t" "sep \<noteq> []" "\<forall>c\<in>set sep. is_space c"
  shows "words_acc [] (t @ sep @ s) = t # words_acc [] s"
proof -
  obtain x xs where sep: "sep = x # xs" using assms(2) by (cases sep) auto
  have "words_acc [] (t @ sep @ s) = words_acc t (sep @ s)"
    using assms(1) words_acc_token_prefix [of t "[]" "sep @ s"] by (simp add: is_token_def)
  also have "\<dots> = t # words_acc [] (xs @ s)"
    using assms sep by (simp add: is_token_def)
  also have "words_acc [] (xs @ s) = words_acc [] s"
    using assms(3) sep by (intro words_acc_spaces) simp
  finally show ?thesis .
qed

lemma words_acc_token_end: "is_token t \<Longrightarrow> words_acc [] t = [t]"
  using words_acc_token_prefix [of t "[]" "[]"] by (simp add: is_token_def)

lemma js_join_Cons:
  "js_join sep (x # ts) = (if ts = [] then x else x @ sep @ js_join sep ts)"
  by (cases ts) simp_all

lemma words_join: "\<forall>t\<in>set ts. is_token t \<Longrightarrow> words (js_join '' '' ts) = ts"
proof (induction ts)
  case Nil
  then show ?case by (simp add: words_def)
next
  case (Cons x ts)
  show ?case
  proof (cases "ts = []")
    case True
    then show ?thesis using Cons.prems by (simp add: words_def words_acc_token_end)
  next
    case False
    have "words_acc [] (x @ '' '' @ js_join '' '' ts) = x # words_acc [] (js_join '' '' ts)"
      by (rule words_acc_token_sep) (use Cons.prems in \<open>simp_all add: is_space_def\<close>)
    then show ?thesis using False Cons by (simp add: words_def js_join_Cons)
  qed
qed

lemma join_ends:
  "ts \<noteq> [] \<Longrightarrow> \<forall>t\<in>set ts. is_token t \<Longrightarrow>
     js_join '' '' ts \<noteq> [] \<and> \<not> is_space (hd (js_join '' '' ts))
       \<and> \<not> is_space (last (js_join '' '' ts))"
proof (induction ts)
  case Nil
  then show ?case by simp
next
  case (Cons x ts)
  have x: "x \<noteq> []" "\<not> is_space (hd x)" "\<not> is_space (last x)"
    using Cons.prems(2) by (simp_all add: is_token_def)
  show ?case
  proof (cases "ts = []")
    case True
    then show ?thesis using x by simp
  next
    case False
    then have "js_join '' '' ts \<noteq> []" "\<not> is_space (last (js_join '' '' ts))"
      using Cons by simp_all
    then show ?thesis using x False by (simp add: js_join_Cons)
  qed
qed

lemma rx_split_join:
  assumes "ts \<noteq> []" "\<forall>t\<in>set ts. is_token t"
  shows "rx_split re_spaces (js_join '' '' ts) = ts"
proof -
  let ?j = "js_join '' '' ts"
  have e: "?j \<noteq> []" "\<not> is_space (hd ?j)" "\<not> is_space (last ?j)"
    using join_ends [OF assms] by simp_all
  then have "split_loop (length ?j) re_spaces [] ?j = words_acc [] ?j"
    by (intro split_loop_spaces_words) simp_all
  then show ?thesis using e(1) words_join [OF assms(2)] by (simp add: rx_split_def words_def)
qed

subsection \<open>The loop bodies of \<open>parseDevicesList\<close>\<close>

lemma str_split_unfold:
  "str_split d s =
     takeWhile (\<lambda>c. c \<noteq> d) s #
       (if d \<in> set s then str_split d (drop 1 (dropWhile (\<lambda>c. c \<noteq> d) s)) else [])"
proof (induction s)
  case Nil
  then show ?case by simp
next
  case (Cons c cs)
  then show ?case by (cases "str_split d cs") (auto split: if_splits)
qed

lemma add_token_eq: "add_token info m = add_field info m"
proof (cases "CHR '':'' \<in> set m")
  case False
  then have "str_split (CHR '':'') m = [takeWhile (\<lambda>c. c \<noteq> CHR '':'') m]"
    using str_split_unfold [of "CHR '':''" m] by simp
  moreover have "dropWhile (\<lambda>c. c \<noteq> CHR '':'') m = []"
    using False by (induction m) auto
  then have "token_value m = []" by (simp only: token_value_def) simp
  ultimately show ?thesis by (simp add: add_token_def add_field_def)
next
  case True
  let ?r = "drop 1 (dropWhile (\<lambda>c. c \<noteq> CHR '':'') m)"
  have "str_split (CHR '':'') m = token_key m # str_split (CHR '':'') ?r"
    using True str_split_unfold [of "CHR '':''" m] by (simp add: token_key_def)
  moreover obtain rest where "str_split (CHR '':'') ?r = token_value m # rest"
    using str_split_unfold [of "CHR '':''" ?r] by (simp add: token_value_def)
  ultimately show ?thesis by (simp add: add_token_def add_field_def)
qed

lemma foldl_add_token:
  assumes "\<forall>t\<in>set rest. is_token t"
  shows "foldl add_token ob (rx_split re_spaces (js_join '' '' rest)) = foldl add_field ob rest"
proof (cases rest)
  case Nil
  have "rx_split re_spaces [] = [[]]" by (simp add: rx_split_def re_spaces_def)
  then show ?thesis using Nil by (simp add: add_token_eq add_field_def token_value_def)
next
  case (Cons t ts)
  then have "rx_split re_spaces (js_join '' '' rest) = rest"
    using assms by (intro rx_split_join) simp_all
  moreover have "foldl add_token ob rest = foldl add_field ob rest"
    using add_token_eq by presburger
  ultimately show ?thesis by simp
qed

lemma devices_step_trim:
  "devices_step [] (trim raw) =
     (if startsWith (trim raw) ''List of devices attached'' then []
      else device_record (words (trim raw)))"
proof (cases "trim raw = []")
  case True
  have "rx_split re_spaces [] = [[]]" by (simp add: rx_split_def re_spaces_def)
  then show ?thesis using True
    by (simp add: devices_step_def device_record_def words_def startsWith_def)
next
  case False
  have w: "rx_split re_spaces (trim raw) = words (trim raw)"
    using False by (rule rx_split_spaces_trim)
  show ?thesis
  proof (cases "words (trim raw)")
    case Nil
    then show ?thesis using w by (simp add: devices_step_def device_record_def)
  next
    case (Cons serial ts)
    show ?thesis
    proof (cases ts)
      case Nil
      then show ?thesis using w Cons by (simp add: devices_step_def device_record_def)
    next
      case (Cons state rest)
      have tok: "\<forall>t\<in>set (serial # state # rest). is_token t"
        using words_tokens [of _ "trim raw"] \<open>words (trim raw) = serial # ts\<close> Cons by simp
      then have ne: "serial \<noteq> []" "state \<noteq> []" by (simp_all add: is_token_def)
      have "foldl add_token [(''serial'', serial), (''state'', state)]
              (rx_split re_spaces (js_join '' '' rest))
            = foldl add_field [(''serial'', serial), (''state'', state)] rest"
        using tok by (intro foldl_add_token) simp
      then show ?thesis using w \<open>words (trim raw) = serial # ts\<close> Cons ne
        by (simp add: devices_step_def device_record_def)
    qed
  qed
qed

lemma devices_step_append: "devices_step list l = list @ devices_step [] l"
  by (simp add: devices_step_def split: list.splits)

lemma foldl_devices_step:
  "foldl devices_step acc ls = acc @ concat (map (devices_step []) ls)"
proof (induction ls arbitrary: acc)
  case Nil
  then show ?case by simp
next
  case (Cons l ls)
  show ?case using Cons.IH [of "devices_step acc l"] devices_step_append [of acc l] by simp
qed

lemma parseDevicesList_eq:
  "parseDevicesList text = concat (map (\<lambda>l. device_record (words l)) (device_lines text))"
proof -
  have "concat (map (devices_step []) (filter (\<lambda>l. l \<noteq> []) (map trim ls)))
        = concat (map (\<lambda>l. device_record (words l))
            (filter (\<lambda>l. \<not> startsWith l ''List of devices attached'') (map trim ls)))" for ls
  proof (induction ls)
    case Nil
    then show ?case by simp
  next
    case (Cons raw ls)
    have "trim raw = [] \<Longrightarrow> device_record (words (trim raw)) = []"
      by (simp add: words_def device_record_def)
    then show ?case using Cons devices_step_trim [of raw] by auto
  qed
  then show ?thesis by (simp add: parseDevicesList_def device_lines_def foldl_devices_step)
qed

section \<open>Splitting into lines\<close>

lemma match_at_newline:
  "match_at n re_newline s =
     (if startsWith s [CHR 0x0D, CHR ''\<newline>''] then Some (drop 2 s, None)
      else if startsWith s ''\<newline>'' then Some (drop 1 s, None)
      else None)"
proof (cases s)
  case Nil
  then show ?thesis by (simp add: re_newline_def startsWith_def)
next
  case (Cons c cs)
  then show ?thesis
    by (cases cs) (auto simp add: re_newline_def startsWith_def)
qed

lemma match_at_newline_None:
  "CHR ''\<newline>'' \<notin> set s \<Longrightarrow> match_at n re_newline s = None"
  unfolding match_at_newline startsWith_def
  by (cases s; cases "tl s") auto

lemma split_loop_no_newline:
  "CHR ''\<newline>'' \<notin> set s \<Longrightarrow> split_loop n re_newline cur s = [cur @ s]"
proof (induction s arbitrary: cur)
  case Nil
  then show ?case by simp
next
  case (Cons c cs)
  then have "match_at n re_newline (c # cs) = None" by (intro match_at_newline_None)
  then show ?case using Cons by simp
qed

lemma rx_split_no_newline:
  "s \<noteq> [] \<Longrightarrow> CHR ''\<newline>'' \<notin> set s \<Longrightarrow> rx_split re_newline s = [s]"
  by (simp add: rx_split_def split_loop_no_newline)

section \<open>Properties of \<open>parseDevicesList\<close>\<close>

lemma words_acc_trailing_spaces:
  "\<forall>c\<in>set ws. is_space c \<Longrightarrow> words_acc cur (s @ ws) = words_acc cur s"
proof (induction s arbitrary: cur)
  case Nil
  then show ?case by (induction ws arbitrary: cur) auto
next
  case (Cons a s)
  then show ?case by simp
qed

lemma trim_decomp:
  "\<exists>ws. (\<forall>c\<in>set ws. is_space c) \<and> dropWhile is_space s = trim s @ ws"
proof -
  let ?a = "dropWhile is_space s"
  have "rev ?a = takeWhile is_space (rev ?a) @ dropWhile is_space (rev ?a)" by simp
  then have "?a = rev (dropWhile is_space (rev ?a)) @ rev (takeWhile is_space (rev ?a))"
    by (metis rev_append rev_rev_ident)
  then have "?a = trim s @ rev (takeWhile is_space (rev ?a))" by (simp add: trim_def)
  moreover have "\<forall>c\<in>set (rev (takeWhile is_space (rev ?a))). is_space c"
    by (auto dest: set_takeWhileD)
  ultimately show ?thesis by (intro exI conjI)
qed

lemma words_trim: "words (trim s) = words s"
proof -
  obtain ws where ws: "\<forall>c\<in>set ws. is_space c" "dropWhile is_space s = trim s @ ws"
    using trim_decomp [of s] by (elim exE conjE)
  have "words s = words_acc [] (dropWhile is_space s)"
    by (simp add: words_def words_acc_dropWhile)
  also have "\<dots> = words_acc [] (trim s)"
    using ws by (simp add: words_acc_trailing_spaces)
  finally show ?thesis by (simp add: words_def)
qed

lemma trim_id: "s \<noteq> [] \<Longrightarrow> \<not> is_space (hd s) \<Longrightarrow> \<not> is_space (last s) \<Longrightarrow> trim s = s"
proof -
  assume a: "s \<noteq> []" "\<not> is_space (hd s)" "\<not> is_space (last s)"
  then have 1: "dropWhile is_space s = s" by (cases s) auto
  have "rev s \<noteq> []" "\<not> is_space (hd (rev s))" using a by (simp_all add: hd_rev)
  then have "dropWhile is_space (rev s) = rev s" by (cases "rev s") auto
  then show ?thesis using 1 by (simp add: trim_def)
qed

lemma parseDevicesList_line:
  assumes "CHR ''\<newline>'' \<notin> set line"
    and "\<not> startsWith (trim line) ''List of devices attached''"
  shows "parseDevicesList line = device_record (words line)"
proof (cases "line = []")
  case True
  then show ?thesis
    by (simp add: parseDevicesList_eq device_lines_def words_def device_record_def)
next
  case False
  then have "rx_split re_newline line = [line]" using assms(1) by (rule rx_split_no_newline)
  then show ?thesis using assms(2)
    by (simp add: parseDevicesList_eq device_lines_def words_trim)
qed

subsection \<open>Reading a property after setting one\<close>

lemma map_of_replace:
  "map_of (map (\<lambda>(k', v'). if k' = k then (k', v) else (k', v')) ob) k' =
     (if k' = k \<and> k \<in> set (map fst ob) then Some v else map_of ob k')"
proof (induction ob)
  case Nil
  then show ?case by simp
next
  case (Cons a ob)
  obtain ka va where a: "a = (ka, va)" by (cases a)
  show ?case
  proof (cases "ka = k")
    case True
    then show ?thesis using a Cons by simp
  next
    case False
    then show ?thesis using a Cons by (cases "k' = ka") auto
  qed
qed

lemma map_of_insert_index:
  "k \<notin> set (map fst ob) \<Longrightarrow>
   map_of (insert_index k v ob) k' = (if k' = k then Some v else map_of ob k')"
  by (induction ob) auto

lemma map_of_append_new:
  "k \<notin> set (map fst ob) \<Longrightarrow>
   map_of (ob @ [(k, v)]) k' = (if k' = k then Some v else map_of ob k')"
  by (induction ob) auto

lemma obj_get_set_prop:
  "obj_get (set_prop ob k v) k' =
     (if k' = k \<and> k \<noteq> ''__proto__'' then Some v else obj_get ob k')"
  unfolding obj_get_def set_prop_def obj_keys_def
  by (simp add: map_of_replace map_of_insert_index map_of_append_new del: map_of_append)

lemma obj_get_add_field_other:
  "token_key u = K \<longrightarrow> token_value u = [] \<Longrightarrow> obj_get (add_field ob u) K = obj_get ob K"
  by (simp add: add_field_def obj_get_set_prop)

lemma obj_get_foldl_keep:
  "\<forall>u\<in>set r. token_key u = K \<longrightarrow> token_value u = [] \<Longrightarrow>
   obj_get (foldl add_field ob r) K = obj_get ob K"
  by (induction r arbitrary: ob) (simp_all add: obj_get_add_field_other)

lemma obj_get_foldl_last:
  assumes "token_key t = K" "K \<noteq> ''__proto__''" "token_value t \<noteq> []"
    and "\<forall>u\<in>set r2. token_key u = K \<longrightarrow> token_value u = []"
  shows "obj_get (foldl add_field ob (r1 @ t # r2)) K = Some (token_value t)"
proof -
  have "obj_get (foldl add_field ob (r1 @ t # r2)) K
        = obj_get (add_field (foldl add_field ob r1) t) K"
    using assms(4) by (simp add: obj_get_foldl_keep)
  then show ?thesis using assms(1-3) by (simp add: add_field_def obj_get_set_prop)
qed

text \<open>
  C2, as stated: every token with a colon is added to the attributes.  The token \<open>k:\<close> has
  a colon, and the record of the code has no property \<open>k\<close>.
\<close>

theorem parseDevicesList_counterexample:
  "parseDevicesList ''A device k:'' = [[(''serial'', ''A''), (''state'', ''device'')]]
   \<and> claimed_parseDeviceList ''A device k:''
       = [\<lparr>dr_serial = ''A'', dr_state = ''device'', dr_attributes = [(''k'', [])]\<rparr>]"
  by code_simp

text \<open>
  C2, amended: \<open>parseDevicesList\<close> splits its input into lines, trims them, drops the lines
  that start with the header (a blank line gives no record), splits each remaining line on
  whitespace into serial, state and a tail of tokens; a token whose value (the text between
  its first colon and the next) is missing or empty is ignored, every other token sets the
  property named by its key on the record itself, replacing an earlier value, \<open>serial\<close>
  and \<open>state\<close> included (the key \<open>__proto__\<close> is ignored); a line with fewer than two
  words is skipped; the records come in input line order.  On the input of the example it
  yields exactly one record, with \<open>serial\<close>, \<open>state\<close>, \<open>product\<close> and \<open>model\<close>.
\<close>

theorem parseDevicesList_algorithm:
  "parseDevicesList text = concat (map (\<lambda>l. device_record (words l)) (device_lines text))
   \<and> parseDevicesList devices_example
       = [[(''serial'', ''ABC123''), (''state'', ''device''),
           (''product'', ''pixel''), (''model'', ''Pixel_5'')]]"
proof
  show "parseDevicesList text = concat (map (\<lambda>l. device_record (words l)) (device_lines text))"
    by (rule parseDevicesList_eq)
  show "parseDevicesList devices_example
       = [[(''serial'', ''ABC123''), (''state'', ''device''),
           (''product'', ''pixel''), (''model'', ''Pixel_5'')]]"
    by code_simp
qed

text \<open>
  C9, as stated: any token of the tail with key \<open>serial\<close> overwrites the serial.  A token
  \<open>serial:\<close> has that key and an empty value, which the guard \<open>if (v)\<close> skips: the serial
  stays the first word.
\<close>

theorem token_overwrites_counterexample:
  "words ''A device serial:'' = [''A'', ''device'', ''serial:'']
   \<and> token_key ''serial:'' = ''serial''
   \<and> parseDevicesList ''A device serial:'' = [[(''serial'', ''A''), (''state'', ''device'')]]"
  by code_simp

text \<open>
  C9, amended: the tokens are stored as top-level properties of the record.  For any device
  line (its words are \<open>serial\<close>, \<open>state\<close> and the tokens \<open>rest\<close>) and any key other than
  \<open>__proto__\<close>, in particular \<open>serial\<close> and \<open>state\<close>: the last token of the tail with that key
  and a non-empty value gives the value of that property in the record, overwriting the
  serial or state parsed from the first two words.
\<close>

theorem token_overwrites:
  assumes "words line = serial # state # rest"
    and "CHR ''\<newline>'' \<notin> set line"
    and "\<not> startsWith (trim line) ''List of devices attached''"
    and "rest = r1 @ t # r2"
    and "token_key t = K" and "K \<noteq> ''__proto__''" and "token_value t \<noteq> []"
    and "\<forall>u\<in>set r2. token_key u = K \<longrightarrow> token_value u = []"
  shows "\<exists>ob. parseDevicesList line = [ob] \<and> obj_get ob K = Some (token_value t)"
proof -
  let ?ob = "foldl add_field [(''serial'', serial), (''state'', state)] rest"
  have "parseDevicesList line = [?ob]"
    using parseDevicesList_line [OF assms(2,3)] assms(1) by (simp add: device_record_def)
  moreover have "obj_get ?ob K = Some (token_value t)"
    unfolding assms(4) using assms(5-8) by (rule obj_get_foldl_last)
  ultimately show ?thesis by (intro exI conjI)
qed

text \<open>C9, amended, at a line whose tail has a \<open>serial\<close> token followed by another token.\<close>

theorem token_overwrites_witness:
  "words ''A device serial:B model:m'' = [''A'', ''device'', ''serial:B'', ''model:m'']
   \<and> token_key ''serial:B'' = ''serial''
   \<and> (\<exists>ob. parseDevicesList ''A device serial:B model:m'' = [ob]
            \<and> obj_get ob ''serial'' = Some ''B'')"
proof -
  let ?W = "''A device serial:B model:m''"
  have h1: "words ?W = ''A'' # ''device'' # [''serial:B'', ''model:m'']" by code_simp
  have h2: "CHR ''\<newline>'' \<notin> set ?W" by simp
  have h3: "\<not> startsWith (trim ?W) ''List of devices attached''" by code_simp
  have h4: "[''serial:B'', ''model:m''] = [] @ ''serial:B'' # [''model:m'']" by simp
  have h5: "token_key ''serial:B'' = ''serial''" by code_simp
  have h6: "''serial'' \<noteq> ''__proto__''" by simp
  have h7: "token_value ''serial:B'' \<noteq> []" by code_simp
  have h8: "\<forall>u\<in>set [''model:m'']. token_key u = ''serial'' \<longrightarrow> token_value u = []"
    by code_simp
  have v: "token_value ''serial:B'' = ''B''" by code_simp
  from token_overwrites [OF h1 h2 h3 h4 h5 h6 h7 h8] h1 h5 show ?thesis
    unfolding v by simp
qed

subsection \<open>Well-formed device lines\<close>

lemma words_acc_pairs:
  "is_token t \<Longrightarrow>
   \<forall>(sep, tok)\<in>set ps. sep \<noteq> [] \<and> (\<forall>c\<in>set sep. is_space c) \<and> is_token tok \<Longrightarrow>
   words_acc [] (t @ concat (map (\<lambda>(sep, tok). sep @ tok) ps)) = t # map snd ps"
proof (induction ps arbitrary: t)
  case Nil
  then show ?case by (simp add: words_acc_token_end)
next
  case (Cons p ps)
  obtain sep tok where p: "p = (sep, tok)" by (cases p)
  have sep: "sep \<noteq> []" "\<forall>c\<in>set sep. is_space c" and tok: "is_token tok"
    using Cons.prems(2) p by simp_all
  have rest: "\<forall>(sep, tok)\<in>set ps. sep \<noteq> [] \<and> (\<forall>c\<in>set sep. is_space c) \<and> is_token tok"
    using Cons.prems(2) by simp
  have "words_acc [] (t @ sep @ (tok @ concat (map (\<lambda>(sep, tok). sep @ tok) ps)))
        = t # words_acc [] (tok @ concat (map (\<lambda>(sep, tok). sep @ tok) ps))"
    using Cons.prems(1) sep by (rule words_acc_token_sep)
  also have "words_acc [] (tok @ concat (map (\<lambda>(sep, tok). sep @ tok) ps)) = tok # map snd ps"
    using tok rest by (rule Cons.IH)
  finally show ?case using p by simp
qed

lemma newline_space: "is_space (CHR ''\<newline>'')"
  by (simp add: is_space_def)

lemma colon_not_space: "\<not> is_space (CHR '':'')"
  by (simp add: is_space_def)

lemma is_token_field:
  "is_field k \<Longrightarrow> is_field v \<Longrightarrow> is_token (k @ CHR '':'' # v)"
  using colon_not_space by (auto simp: is_token_def is_field_def)

lemma token_key_field: "is_field k \<Longrightarrow> token_key (k @ CHR '':'' # v) = k"
  by (simp add: token_key_def is_field_def)

lemma token_value_field:
  "is_field k \<Longrightarrow> is_field v \<Longrightarrow> token_value (k @ CHR '':'' # v) = v"
proof -
  assume k: "is_field k" and v: "is_field v"
  have "dropWhile (\<lambda>c. c \<noteq> CHR '':'') (k @ CHR '':'' # v) = CHR '':'' # v"
    using k by (simp add: is_field_def)
  moreover have "takeWhile (\<lambda>c. c \<noteq> CHR '':'') v = v"
    using v by (simp add: is_field_def)
  ultimately show ?thesis by (simp add: token_value_def)
qed

lemma attr_pairs:
  "\<forall>(sep, k, v)\<in>set attrs. is_sep sep \<and> is_field k \<and> is_field v \<and> v \<noteq> [] \<Longrightarrow>
   \<forall>(sep, tok)\<in>set (map (\<lambda>(sep, k, v). (sep, k @ CHR '':'' # v)) attrs).
      sep \<noteq> [] \<and> (\<forall>c\<in>set sep. is_space c) \<and> is_token tok"
proof (induction attrs)
  case Nil
  then show ?case by simp
next
  case (Cons a attrs)
  obtain sep k v where a: "a = (sep, k, v)" by (cases a)
  then have "is_sep sep" "is_field k" "is_field v" using Cons.prems by simp_all
  then have "sep \<noteq> []" "\<forall>c\<in>set sep. is_space c" "is_token (k @ CHR '':'' # v)"
    by (simp_all add: is_sep_def is_token_field)
  then show ?case using Cons a by simp
qed

lemma words_device_line:
  assumes "is_token serial" "is_token state" "is_sep sep0"
    and "\<forall>(sep, k, v)\<in>set attrs. is_sep sep \<and> is_field k \<and> is_field v \<and> v \<noteq> []"
  shows "words (device_line serial sep0 state attrs)
         = serial # state # map (\<lambda>(sep, k, v). k @ CHR '':'' # v) attrs"
proof -
  let ?qs = "map (\<lambda>(sep, k, v). (sep, k @ CHR '':'' # v)) attrs"
  let ?ps = "(sep0, state) # ?qs"
  have c: "concat (map (\<lambda>(sep, k, v). sep @ k @ '':'' @ v) attrs)
           = concat (map (\<lambda>(sep, tok). sep @ tok) ?qs)"
    by (induction attrs) (simp_all add: case_prod_unfold)
  have eq: "device_line serial sep0 state attrs
            = serial @ concat (map (\<lambda>(sep, tok). sep @ tok) ?ps)"
    unfolding device_line_def c by simp
  have "sep0 \<noteq> []" "\<forall>c\<in>set sep0. is_space c" using assms(3) by (simp_all add: is_sep_def)
  then have "\<forall>(sep, tok)\<in>set ?ps. sep \<noteq> [] \<and> (\<forall>c\<in>set sep. is_space c) \<and> is_token tok"
    using attr_pairs [OF assms(4)] assms(2) by simp
  then have "words_acc [] (serial @ concat (map (\<lambda>(sep, tok). sep @ tok) ?ps)) = serial # map snd ?ps"
    using assms(1) by (intro words_acc_pairs)
  moreover have "map snd ?qs = map (\<lambda>(sep, k, v). k @ CHR '':'' # v) attrs"
    by (induction attrs) (simp_all add: case_prod_unfold)
  ultimately show ?thesis unfolding eq words_def by simp
qed

lemma no_newline_token: "is_token t \<Longrightarrow> CHR ''\<newline>'' \<notin> set t"
  using newline_space by (auto simp: is_token_def)

lemma no_newline_field: "is_field t \<Longrightarrow> CHR ''\<newline>'' \<notin> set t"
  using newline_space by (auto simp: is_field_def)

lemma no_newline_sep: "is_sep t \<Longrightarrow> CHR ''\<newline>'' \<notin> set t"
  by (auto simp: is_sep_def)

lemma no_newline_device_line:
  assumes "is_token serial" "is_token state" "is_sep sep0"
    and "\<forall>(sep, k, v)\<in>set attrs. is_sep sep \<and> is_field k \<and> is_field v \<and> v \<noteq> []"
  shows "CHR ''\<newline>'' \<notin> set (device_line serial sep0 state attrs)"
proof -
  have "CHR ''\<newline>'' \<notin> set (concat (map (\<lambda>(sep, k, v). sep @ k @ '':'' @ v) attrs))"
    using assms(4)
  proof (induction attrs)
    case Nil
    then show ?case by simp
  next
    case (Cons a attrs)
    obtain sep k v where a: "a = (sep, k, v)" by (cases a)
    then have "is_sep sep" "is_field k" "is_field v" using Cons.prems by simp_all
    then have "CHR ''\<newline>'' \<notin> set sep" "CHR ''\<newline>'' \<notin> set k" "CHR ''\<newline>'' \<notin> set v"
      by (simp_all add: no_newline_sep no_newline_field)
    then show ?case using Cons a by simp
  qed
  then show ?thesis
    using assms(1-3) by (simp add: device_line_def no_newline_token no_newline_sep)
qed

lemma startsWith_trim:
  assumes "s \<noteq> []" "\<not> is_space (hd s)" "startsWith (trim s) p"
  shows "startsWith s p"
proof -
  obtain ws where ws: "dropWhile is_space s = trim s @ ws"
    using trim_decomp [of s] by (elim exE conjE)
  have "dropWhile is_space s = s" using assms(1,2) by (cases s) auto
  then have "s = trim s @ ws" using ws by simp
  moreover obtain r where "trim s = p @ r" using assms(3) by (auto simp: startsWith_iff)
  ultimately have "s = p @ (r @ ws)" by simp
  then show ?thesis unfolding startsWith_iff by (rule exI)
qed

lemma set_prop_new:
  "k \<noteq> ''__proto__'' \<Longrightarrow> k \<notin> set (obj_keys ob) \<Longrightarrow> \<not> is_array_index k \<Longrightarrow>
   set_prop ob k v = ob @ [(k, v)]"
  by (simp add: set_prop_def)

lemma foldl_add_field_fresh:
  "\<forall>(sep, k, v)\<in>set attrs. is_field k \<and> is_field v \<and> v \<noteq> []
      \<and> k \<noteq> ''__proto__'' \<and> \<not> is_array_index k \<and> k \<notin> set (obj_keys ob) \<Longrightarrow>
   distinct (map (\<lambda>(sep, k, v). k) attrs) \<Longrightarrow>
   foldl add_field ob (map (\<lambda>(sep, k, v). k @ CHR '':'' # v) attrs)
     = ob @ map (\<lambda>(sep, k, v). (k, v)) attrs"
proof (induction attrs arbitrary: ob)
  case Nil
  then show ?case by simp
next
  case (Cons a attrs)
  obtain sep k v where a: "a = (sep, k, v)" by (cases a)
  have f: "is_field k" "is_field v" "v \<noteq> []" "k \<noteq> ''__proto__''" "\<not> is_array_index k"
    "k \<notin> set (obj_keys ob)"
    using Cons.prems(1) a by simp_all
  have step: "add_field ob (k @ CHR '':'' # v) = ob @ [(k, v)]"
    using f by (simp add: add_field_def token_key_field token_value_field set_prop_new)
  have "foldl add_field (ob @ [(k, v)]) (map (\<lambda>(sep, k, v). k @ CHR '':'' # v) attrs)
        = (ob @ [(k, v)]) @ map (\<lambda>(sep, k, v). (k, v)) attrs"
  proof (rule Cons.IH)
    show "distinct (map (\<lambda>(sep, k, v). k) attrs)" using Cons.prems(2) by simp
    have "\<forall>(sep', k', v')\<in>set attrs. k' \<noteq> k"
      using Cons.prems(2) a by (auto simp: image_iff)
    then show "\<forall>(sep', k', v')\<in>set attrs. is_field k' \<and> is_field v' \<and> v' \<noteq> []
        \<and> k' \<noteq> ''__proto__'' \<and> \<not> is_array_index k' \<and> k' \<notin> set (obj_keys (ob @ [(k, v)]))"
      using Cons.prems(1) by (auto simp: obj_keys_def)
  qed
  then show ?case using a step by (simp add: case_prod_unfold)
qed

text \<open>
  C6, amended: for every well-formed device line whose attribute keys are pairwise
  distinct, are none of \<open>serial\<close>, \<open>state\<close> and \<open>__proto__\<close> and are not array indices, and
  which does not start with the header, the one record that \<open>parseDevicesList\<close> returns
  consists of the serial, the state and the attributes, with their exact values and in
  the order of the tokens.
\<close>

theorem device_line_roundtrip:
  assumes "is_token serial" and "is_token state" and "is_sep sep0"
    and "\<forall>(sep, k, v)\<in>set attrs. is_sep sep \<and> is_field k \<and> is_field v \<and> v \<noteq> []"
    and "distinct (map (\<lambda>(sep, k, v). k) attrs)"
    and "\<forall>(sep, k, v)\<in>set attrs.
           k \<notin> {''serial'', ''state'', ''__proto__''} \<and> \<not> is_array_index k"
    and "\<not> startsWith (device_line serial sep0 state attrs) ''List of devices attached''"
  shows "parseDevicesList (device_line serial sep0 state attrs)
         = [(''serial'', serial) # (''state'', state) # map (\<lambda>(sep, k, v). (k, v)) attrs]"
proof -
  let ?l = "device_line serial sep0 state attrs"
  have ne: "?l \<noteq> []" "\<not> is_space (hd ?l)"
    using assms(1) by (cases serial; simp add: device_line_def is_token_def)+
  have 1: "CHR ''\<newline>'' \<notin> set ?l" using assms(1-4) by (rule no_newline_device_line)
  have 2: "\<not> startsWith (trim ?l) ''List of devices attached''"
    using assms(7) startsWith_trim [OF ne] by blast
  have 3: "words ?l = serial # state # map (\<lambda>(sep, k, v). k @ CHR '':'' # v) attrs"
    using assms(1-4) by (rule words_device_line)
  have 4: "foldl add_field [(''serial'', serial), (''state'', state)]
             (map (\<lambda>(sep, k, v). k @ CHR '':'' # v) attrs)
           = [(''serial'', serial), (''state'', state)] @ map (\<lambda>(sep, k, v). (k, v)) attrs"
    using assms(4,6) by (intro foldl_add_field_fresh assms(5)) (auto simp: obj_keys_def)
  show ?thesis
    using parseDevicesList_line [OF 1 2] 3 4 by (simp add: device_record_def)
qed

text \<open>
  C6, as stated: every well-formed device line gives back its serial, state and
  attributes.  A line with the attribute \<open>serial:XYZ\<close> gives a record whose serial is
  \<open>XYZ\<close>, not the serial \<open>ABC123\<close> of the line, and which has no further attribute.
\<close>

theorem device_line_roundtrip_counterexample:
  "device_line ''ABC123'' '' '' ''device'' [('' '', ''serial'', ''XYZ'')] = ''ABC123 device serial:XYZ''
   \<and> parseDevicesList ''ABC123 device serial:XYZ'' = [[(''serial'', ''XYZ''), (''state'', ''device'')]]"
  by code_simp

text \<open>C6, amended, at the device line of the example.\<close>

theorem device_line_roundtrip_witness:
  "device_line ''ABC123'' [CHR 0x09] ''device''
       [('' '', ''product'', ''pixel''), ('' '', ''model'', ''Pixel_5'')]
      = ''ABC123'' @ [CHR 0x09] @ ''device product:pixel model:Pixel_5''
   \<and> parseDevicesList (''ABC123'' @ [CHR 0x09] @ ''device product:pixel model:Pixel_5'')
      = [[(''serial'', ''ABC123''), (''state'', ''device''),
          (''product'', ''pixel''), (''model'', ''Pixel_5'')]]"
proof -
  let ?attrs = "[('' '', ''product'', ''pixel''), ('' '', ''model'', ''Pixel_5'')]"
  have l: "device_line ''ABC123'' [CHR 0x09] ''device'' ?attrs
           = ''ABC123'' @ [CHR 0x09] @ ''device product:pixel model:Pixel_5''"
    by code_simp
  have h1: "is_token ''ABC123''" by code_simp
  have h2: "is_token ''device''" by code_simp
  have h3: "is_sep [CHR 0x09]" by code_simp
  have h4: "\<forall>(sep, k, v)\<in>set ?attrs. is_sep sep \<and> is_field k \<and> is_field v \<and> v \<noteq> []"
    by code_simp
  have h5: "distinct (map (\<lambda>(sep, k, v). k) ?attrs)" by code_simp
  have h6: "\<forall>(sep, k, v)\<in>set ?attrs.
           k \<notin> {''serial'', ''state'', ''__proto__''} \<and> \<not> is_array_index k"
    by code_simp
  have h7: "\<not> startsWith (device_line ''ABC123'' [CHR 0x09] ''device'' ?attrs) ''List of devices attached''"
    by code_simp
  from device_line_roundtrip [OF h1 h2 h3 h4 h5 h6 h7] l show ?thesis by simp
qed

section \<open>Properties of the log relay\<close>

lemma split_loop_newline_Cons:
  "split_loop n re_newline cur (c # cs) =
     (if startsWith (c # cs) [CHR 0x0D, CHR ''\<newline>''] then cur # split_loop n re_newline [] (drop 1 cs)
      else if c = CHR ''\<newline>'' then cur # split_loop n re_newline [] cs
      else split_loop n re_newline (cur @ [c]) cs)"
proof -
  have "length cs - Suc 0 < Suc (length cs)" by arith
  then show ?thesis by (simp add: match_at_newline startsWith_def)
qed

lemma split_loop_newline_pieces:
  "CHR ''\<newline>'' \<notin> set cur \<Longrightarrow> \<forall>p\<in>set (split_loop n re_newline cur s). CHR ''\<newline>'' \<notin> set p"
proof (induction "length s" arbitrary: s cur rule: less_induct)
  case less
  show ?case
  proof (cases s)
    case Nil
    then show ?thesis using less.prems by simp
  next
    case (Cons c cs)
    have 1: "\<forall>p\<in>set (split_loop n re_newline [] (drop 1 cs)). CHR ''\<newline>'' \<notin> set p"
      by (rule less.hyps) (simp_all add: Cons less_Suc_eq_le)
    have 2: "\<forall>p\<in>set (split_loop n re_newline [] cs). CHR ''\<newline>'' \<notin> set p"
      by (rule less.hyps) (simp_all add: Cons)
    have 3: "c \<noteq> CHR ''\<newline>'' \<Longrightarrow> \<forall>p\<in>set (split_loop n re_newline (cur @ [c]) cs). CHR ''\<newline>'' \<notin> set p"
      using less.prems by (intro less.hyps) (simp_all add: Cons)
    show ?thesis
      unfolding Cons split_loop_newline_Cons using 1 2 3 less.prems by simp
  qed
qed

lemma rx_split_newline_pieces: "p \<in> set (rx_split re_newline s) \<Longrightarrow> CHR ''\<newline>'' \<notin> set p"
  using split_loop_newline_pieces [of "[]" "length s" s]
  by (auto simp: rx_split_def split: if_splits)

lemma replace_loop_no_newline:
  "CHR ''\<newline>'' \<notin> set s \<Longrightarrow> replace_loop n re_newline rep s = s"
proof (induction s)
  case Nil
  then show ?case by (simp add: match_at_newline_None)
next
  case (Cons c cs)
  then have "match_at n re_newline (c # cs) = None" by (intro match_at_newline_None)
  then show ?case using Cons by simp
qed

lemma send_no_newline:
  "CHR ''\<newline>'' \<notin> set l \<Longrightarrow> send written l = written @ [sse_event l]"
  by (simp add: send_def sse_event_def rx_replace_def replace_loop_no_newline)

text \<open>
  C7: every line of standard output is forwarded as exactly one event with the text of
  the line.  The data handler splits every chunk on its own and keeps no unfinished line
  from one chunk to the next.  The line \<open>abc\<close>, arriving in the two chunks \<open>ab\<close> and \<open>c\n\<close>, is
  forwarded as the two events \<open>ab\<close> and \<open>c\<close>; the same line arriving in the one chunk
  \<open>abc\n\<close> is forwarded as the one event \<open>abc\<close>.
\<close>

theorem logcat_stream_line_across_chunks:
  "stream_lines (stdout_text [StdoutData ''ab'', StdoutData ''c\<newline>'']) = [''abc'']
   \<and> logcat_stream [StdoutData ''ab'', StdoutData ''c\<newline>'']
       = [''data: ab\<newline>\<newline>'', ''data: c\<newline>\<newline>'']
   \<and> logcat_stream [StdoutData ''abc\<newline>''] = [''data: abc\<newline>\<newline>'']"
  by code_simp

section \<open>The parsers return well-formed structures\<close>

















end
